theory Spec2Isabelle
  imports Main "HOL-Library.Multiset" "HOL-Library.List_Lexorder" "HOL-Library.Char_ord"
begin

text \<open>
  An embedding of package \<^verbatim>\<open>file\<close> of kextractor and of the loop of its \<^verbatim>\<open>main\<close> that
  consumes the scan results: \<^verbatim>\<open>File.Scan\<close>, \<^verbatim>\<open>Heap\<close> and \<^verbatim>\<open>ScanFiles\<close> of \<^verbatim>\<open>file.go\<close>, the
  older \<^verbatim>\<open>Data.Scan\<close> and \<^verbatim>\<open>Data.HasMatchedString\<close>, and the parts of Go's standard library
  they run on (\<^verbatim>\<open>container/heap\<close>, \<^verbatim>\<open>bufio.Reader\<close>). The definitions come first, section by
  section; the properties follow, each claim with its number.
\<close>

section \<open>Errors, compiled patterns and the line reader\<close>

text \<open>
  Go's \<^verbatim>\<open>error\<close> values that the scanning code can meet. \<^verbatim>\<open>io.EOF\<close> is the only one
  the code compares against; the others are told apart only by being different from it.
  A nil error is \<open>None\<close> of \<open>error option\<close>.
\<close>

datatype error =
    EOF
  | ErrTooLong
  | PathError string
  | SyntaxError string

text \<open>
  A byte slice is a \<open>string\<close> (a list of 8-bit characters). A compiled
  \<^verbatim>\<open>*regexp.Regexp\<close> is represented by what the code uses of it, its \<^verbatim>\<open>Match\<close> method on a
  byte slice; a nil pointer is \<open>None\<close>.
\<close>

type_synonym Regexp = "string \<Rightarrow> bool"

text \<open>
  \<^verbatim>\<open>reader.ReadLine()\<close> returns \<^verbatim>\<open>(chunk, isPrefix, err)\<close>: either a chunk with a nil error or
  a non-nil error. The reader is taken as the sequence of results that its successive
  calls return; a sequence that is used up returns \<^verbatim>\<open>io.EOF\<close>.
\<close>

datatype ReadLine_result = Chunk string bool | Failure error

text \<open>
  \<^verbatim>\<open>os.Open\<close> either fails with an error or gives a file, which is read through a
  \<^verbatim>\<open>bufio.Reader\<close>. The calls made to the operating system are logged.
\<close>

type_synonym filesystem = "string \<Rightarrow> error + ReadLine_result list"

datatype os_call = Open string | Close string

section \<open>The older scanner: \<^verbatim>\<open>Data\<close>\<close>

text \<open>
  \<^verbatim>\<open>map[int]string\<close> is a partial map from line numbers to line texts; \<^verbatim>\<open>len(m) > 0\<close> is
  \<open>m \<noteq> Map.empty\<close>. Line numbers are natural numbers: the counter starts at 0 or 1 and is
  only incremented, and a file has far fewer than \<open>2^63\<close> lines.
\<close>

record Data =
  path :: string
  matchString :: string
  linesContainingMatchString :: "nat \<rightharpoonup> string"
  isScanned :: bool
  ScanError :: "error option"

definition New :: "string \<Rightarrow> string \<Rightarrow> Data" where
  "New p ms = \<lparr>Data.path = p, matchString = ms, linesContainingMatchString = Map.empty,
     isScanned = False, ScanError = None\<rparr>"

text \<open>
  \<^verbatim>\<open>bufio.Scanner\<close> is taken as the list of lines that \<^verbatim>\<open>scanner.Text()\<close> returns while
  \<^verbatim>\<open>scanner.Scan()\<close> is true, and the value of \<^verbatim>\<open>scanner.Err()\<close> afterwards (nil at the end
  of the file). \<^verbatim>\<open>regexp.MatchString(pattern, s)\<close> compiles the pattern on every call; the
  compiler is the parameter \<open>compile\<close>.
\<close>

type_synonym Compile = "string \<Rightarrow> error + Regexp"

definition regexp_MatchString :: "Compile \<Rightarrow> string \<Rightarrow> string \<Rightarrow> error + bool" where
  "regexp_MatchString compile pattern s =
     (case compile pattern of Inl err \<Rightarrow> Inl err | Inr re \<Rightarrow> Inr (re s))"

text \<open>
  The loop of \<^verbatim>\<open>Data.Scan\<close>. The result is the record and whether the loop ran to the end
  of the lines (\<open>False\<close> is the early \<^verbatim>\<open>return\<close> inside the loop).
\<close>

fun Data_Scan_loop :: "Compile \<Rightarrow> (string \<Rightarrow> bool) \<Rightarrow> string list \<Rightarrow> nat \<Rightarrow> Data \<Rightarrow> Data \<times> bool" where
  "Data_Scan_loop compile fn [] lineNumber d = (d, True)"
| "Data_Scan_loop compile fn (lineText # rest) lineNumber d =
     (if fn lineText then Data_Scan_loop compile fn rest (lineNumber + 1) d
      else case regexp_MatchString compile (matchString d) lineText of
          Inl err \<Rightarrow> (d\<lparr>ScanError := Some err\<rparr>, False)
        | Inr matched \<Rightarrow>
            Data_Scan_loop compile fn rest (lineNumber + 1)
              (if matched
               then d\<lparr>linesContainingMatchString :=
                        (linesContainingMatchString d)(lineNumber \<mapsto> lineText)\<rparr>
               else d))"

type_synonym scanner_files = "string \<Rightarrow> error + (string list \<times> error option)"

definition Data_Scan :: "Compile \<Rightarrow> scanner_files \<Rightarrow> (string \<Rightarrow> bool) \<Rightarrow> Data \<Rightarrow> Data" where
  "Data_Scan compile fs fn d =
     (case fs (Data.path d) of
        Inl err \<Rightarrow> d\<lparr>ScanError := Some err\<rparr>
      | Inr (lines, scanner_Err) \<Rightarrow>
          (case Data_Scan_loop compile fn lines 1 d of
             (d', False) \<Rightarrow> d'
           | (d', True) \<Rightarrow>
               (case scanner_Err of
                  Some err \<Rightarrow> d'\<lparr>ScanError := Some err\<rparr>
                | None \<Rightarrow> d'\<lparr>isScanned := True\<rparr>)))"


section \<open>The scanner: \<^verbatim>\<open>File\<close>\<close>

record File =
  path :: string
  matchRegex :: "Regexp option"
  ignoreRegex :: "Regexp option"
  matchedLines :: "nat \<rightharpoonup> string"
  scanError :: "error option"

text \<open>The test \<^verbatim>\<open>f.ignoreRegex != nil && f.ignoreRegex.Match(line)\<close>.\<close>

definition ignores :: "Regexp option \<Rightarrow> string \<Rightarrow> bool" where
  "ignores ig line = (case ig of None \<Rightarrow> False | Some re \<Rightarrow> re line)"

text \<open>
  The \<^verbatim>\<open>for\<close> loop of \<^verbatim>\<open>File.Scan\<close>, entered with the non-nil match pattern \<open>m\<close>. Its
  variables are \<open>line\<close> and \<open>lineNumber\<close>; \<open>f\<close> is the record behind the receiver.
  \<^verbatim>\<open>append(line, chunk...)\<close> copies the chunk, so \<open>line\<close> never aliases the reader's buffer.
\<close>

fun Scan_loop :: "Regexp \<Rightarrow> ReadLine_result list \<Rightarrow> string \<Rightarrow> nat \<Rightarrow> File \<Rightarrow> File" where
  "Scan_loop m [] line lineNumber f = f"
| "Scan_loop m (Failure err # rest) line lineNumber f =
     (if err \<noteq> EOF then f\<lparr>scanError := Some err\<rparr> else f)"
| "Scan_loop m (Chunk chunk isPrefix # rest) line lineNumber f =
     (if isPrefix then Scan_loop m rest (line @ chunk) lineNumber f
      else if ignores (ignoreRegex f) (line @ chunk)
      then Scan_loop m rest [] (lineNumber + 1) f
      else Scan_loop m rest [] (lineNumber + 1)
             (if m (line @ chunk)
              then f\<lparr>matchedLines := (matchedLines f)(lineNumber + 1 \<mapsto> line @ chunk)\<rparr>
              else f))"

definition Scan :: "filesystem \<Rightarrow> File \<Rightarrow> File \<times> os_call list" where
  "Scan fs f =
     (case matchRegex f of
        None \<Rightarrow> (f, [])
      | Some m \<Rightarrow>
          (case fs (path f) of
             Inl err \<Rightarrow> (f\<lparr>scanError := Some err\<rparr>, [Open (path f)])
           | Inr reads \<Rightarrow> (Scan_loop m reads [] 0 f, [Open (path f), Close (path f)])))"

definition Path :: "File \<Rightarrow> string" where
  "Path f = path f"

definition Error :: "File \<Rightarrow> error option" where
  "Error f = scanError f"

definition MatchedLines :: "File \<Rightarrow> nat \<rightharpoonup> string" where
  "MatchedLines f = matchedLines f"

text \<open>The record that \<^verbatim>\<open>ScanFiles\<close> builds for a path before it calls \<^verbatim>\<open>Scan\<close>.\<close>

definition new_File :: "string \<Rightarrow> Regexp option \<Rightarrow> Regexp option \<Rightarrow> File" where
  "new_File filePath m ig =
     \<lparr>path = filePath, matchRegex = m, ignoreRegex = ig, matchedLines = Map.empty,
      scanError = None\<rparr>"

text \<open>
  Two concrete patterns for the examples: \<^verbatim>\<open>[^\x00-\x7F]\<close> matches a slice that holds a
  byte above \<^verbatim>\<open>0x7F\<close> (every rune outside ASCII is encoded with such bytes, and a stray such
  byte is decoded as a rune outside ASCII), and \<^verbatim>\<open>^//\<close> matches a slice that starts with
  two slashes.
\<close>

definition non_ascii :: Regexp where
  "non_ascii line = (\<exists>c \<in> set line. 128 \<le> (of_char c :: nat))"

definition slash_slash :: Regexp where
  "slash_slash line = (take 2 line = ''//'')"


text \<open>
  The compiler of the examples. It agrees with \<^verbatim>\<open>regexp.Compile\<close> on the two kinds of
  pattern used there: a pattern without a metacharacter is a literal and matches a text
  that has it as a substring, and \<^verbatim>\<open>(\<close> is rejected for its missing closing parenthesis.
  Other patterns are not covered: they are answered with an error that names them.
\<close>

fun contains :: "string \<Rightarrow> string \<Rightarrow> bool" where
  "contains pat [] = (pat = [])"
| "contains pat (c # s) = (take (length pat) (c # s) = pat \<or> contains pat s)"

definition metachars :: "char list" where
  "metachars = CHR 0x5C # ''.+*?()|[]{}^$''"

definition compile_examples :: Compile where
  "compile_examples pattern =
     (if pattern = ''('' then Inl (SyntaxError ''missing closing ): `(`'')
      else if \<forall>c \<in> set pattern. c \<notin> set metachars then Inr (contains pattern)
      else Inl (SyntaxError (''not covered: '' @ pattern)))"

section \<open>The heap of files\<close>

text \<open>
  \<^verbatim>\<open>Heap\<close> is a slice of \<^verbatim>\<open>*File\<close>; the list holds the files the pointers refer to. Go
  compares strings bytewise, which is the lexicographic order on \<open>string\<close> with the
  order of characters by their codes. \<^verbatim>\<open>Len\<close>, \<^verbatim>\<open>Less\<close>, \<^verbatim>\<open>Swap\<close>, \<^verbatim>\<open>Push\<close> and \<^verbatim>\<open>Pop\<close> are
  the methods of \<^verbatim>\<open>Heap\<close>. Indexing out of range panics in Go; \<^verbatim>\<open>Pop\<close> on an empty slice
  is \<open>None\<close>, and the functions below call \<open>Less\<close> and \<open>Swap\<close> only with indices
  below the length.
\<close>

type_synonym Heap = "File list"

definition Len :: "Heap \<Rightarrow> nat" where
  "Len h = length h"

definition Less :: "Heap \<Rightarrow> nat \<Rightarrow> nat \<Rightarrow> bool" where
  "Less h i j = (path (h ! i) < path (h ! j))"

definition Swap :: "Heap \<Rightarrow> nat \<Rightarrow> nat \<Rightarrow> Heap" where
  "Swap h i j = h[i := h ! j, j := h ! i]"

definition Push :: "Heap \<Rightarrow> File \<Rightarrow> Heap" where
  "Push h x = h @ [x]"

definition Pop :: "Heap \<Rightarrow> (File \<times> Heap) option" where
  "Pop h = (if h = [] then None else Some (last h, butlast h))"

text \<open>
  \<^verbatim>\<open>up\<close>, \<^verbatim>\<open>down\<close>, \<^verbatim>\<open>heap.Push\<close> and \<^verbatim>\<open>heap.Pop\<close> of Go's \<^verbatim>\<open>container/heap\<close>, which
  \<^verbatim>\<open>Heap.Print\<close> and \<^verbatim>\<open>main\<close> call:
  \<^verbatim>\<open>func up(h, j) { for { i := (j - 1) / 2; if i == j || !h.Less(j, i) { break };
       h.Swap(i, j); j = i } }\<close>
  \<^verbatim>\<open>func down(h, i0, n) { i := i0; for { j1 := 2*i + 1; if j1 >= n || j1 < 0 { break };
       j := j1; if j2 := j1 + 1; j2 < n && h.Less(j2, j1) { j = j2 };
       if !h.Less(j, i) { break }; h.Swap(i, j); i = j } }\<close>
  \<^verbatim>\<open>func Push(h, x) { h.Push(x); up(h, h.Len()-1) }\<close>
  \<^verbatim>\<open>func Pop(h) { n := h.Len() - 1; h.Swap(0, n); down(h, 0, n); return h.Pop() }\<close>
  Indices are natural numbers: for \<open>j = 0\<close> Go's \<^verbatim>\<open>(j - 1) / 2\<close> is \<open>0\<close> (division
  truncates towards zero), as is \<open>(0 - 1) div 2\<close> on \<open>nat\<close>; \<^verbatim>\<open>2*i + 1\<close> cannot overflow
  for an index of a slice of pointers. \<^verbatim>\<open>heap.Pop\<close> on an empty heap panics in
  \<^verbatim>\<open>h.Swap(0, -1)\<close>: it is \<open>None\<close>.
\<close>

function up :: "Heap \<Rightarrow> nat \<Rightarrow> Heap" where
  "up h j =
     (let i = (j - 1) div 2 in
      if i = j \<or> \<not> Less h j i then h else up (Swap h i j) i)"
  by pat_completeness auto
termination
  by (relation "measure (\<lambda>(h, j). j)") auto

function down :: "Heap \<Rightarrow> nat \<Rightarrow> nat \<Rightarrow> Heap" where
  "down h i n =
     (let j1 = 2 * i + 1 in
      if j1 \<ge> n then h
      else let j = (if j1 + 1 < n \<and> Less h (j1 + 1) j1 then j1 + 1 else j1) in
        if \<not> Less h j i then h else down (Swap h i j) j n)"
  by pat_completeness auto
termination
  by (relation "measure (\<lambda>(h, i, n). n - i)") auto

definition heap_Push :: "Heap \<Rightarrow> File \<Rightarrow> Heap" where
  "heap_Push h x = (let h' = Push h x in up h' (Len h' - 1))"

definition heap_Pop :: "Heap \<Rightarrow> (File \<times> Heap) option" where
  "heap_Pop h =
     (if Len h = 0 then None
      else let n = Len h - 1 in Pop (down (Swap h 0 n) 0 n))"

declare up.simps [simp del] down.simps [simp del]

lemma length_Swap [simp]: "length (Swap h i j) = length h"
  by (simp add: Swap_def)

lemma length_up [simp]: "length (up h j) = length h"
  by (induction h j rule: up.induct) (subst up.simps, simp add: Let_def)

lemma length_down [simp]: "length (down h i n) = length h"
  by (induction h i n rule: down.induct) (subst down.simps, simp add: Let_def)

lemma heap_Pop_length: "heap_Pop h = Some (f, h') \<Longrightarrow> length h' < length h"
  by (auto simp: heap_Pop_def Pop_def Len_def Let_def split: if_splits)

text \<open>
  \<^verbatim>\<open>Heap.Print\<close> pops until the heap is empty and prints each file as it is popped (its
  path, then its matched lines). The result is the list of the files in the order in which
  they are printed. Only \<^verbatim>\<open>*File\<close> values are ever pushed, so the type assertion holds.
\<close>

function Print :: "Heap \<Rightarrow> File list" where
  "Print h =
     (if Len h > 0
      then (case heap_Pop h of None \<Rightarrow> [] | Some (f, h') \<Rightarrow> f # Print h')
      else [])"
  by pat_completeness auto
termination
  by (relation "measure length") (auto dest: heap_Pop_length)

declare Print.simps [simp del]

section \<open>The aggregation loop of \<^verbatim>\<open>main\<close>\<close>

text \<open>
  Modelled from the spec: \<^verbatim>\<open>main\<close> calls \<^verbatim>\<open>f.FoundLines()\<close>, \<^verbatim>\<open>file.SortedFiles\<close> and
  \<^verbatim>\<open>file.PrintFiles\<close>, which this version of package \<^verbatim>\<open>file\<close> does not have. The spec's
  MatchSet of a result is the map that \<^verbatim>\<open>MatchedLines\<close> returns here, and its sorted
  aggregation structure is \<^verbatim>\<open>Heap\<close>, drained by \<^verbatim>\<open>Heap.Print\<close>.
\<close>

definition FoundLines :: "File \<Rightarrow> nat \<rightharpoonup> string" where
  "FoundLines f = MatchedLines f"

text \<open>
  The body of the inner \<^verbatim>\<open>for f := range file.ScanFiles(...)\<close> loop, on the pair of
  \<^verbatim>\<open>scanErrorsCnt\<close> and \<^verbatim>\<open>filesContainingKorean\<close>; printing is left out. The outer loop
  runs it over the results of every chunk in the order in which they arrive.
  \<^verbatim>\<open>heap.Init\<close> on the empty heap changes nothing.
\<close>

definition aggregate :: "nat \<times> Heap \<Rightarrow> File \<Rightarrow> nat \<times> Heap" where
  "aggregate st f =
     (case st of (scanErrorsCnt, filesContainingKorean) \<Rightarrow>
        if Error f \<noteq> None then (scanErrorsCnt + 1, filesContainingKorean)
        else if FoundLines f \<noteq> Map.empty then (scanErrorsCnt, heap_Push filesContainingKorean f)
        else (scanErrorsCnt, filesContainingKorean))"

definition main_loop :: "File list list \<Rightarrow> nat \<times> Heap" where
  "main_loop arrivals = foldl aggregate (0, []) (concat arrivals)"


section \<open>\<^verbatim>\<open>ScanFiles\<close> and its goroutines\<close>

text \<open>
  \<^verbatim>\<open>ScanFiles\<close> makes the unbuffered channel \<^verbatim>\<open>cp\<close>, adds the number of paths to the
  \<^verbatim>\<open>WaitGroup\<close>, starts one goroutine per path and one more that waits and closes, and
  returns \<^verbatim>\<open>cp\<close>. What happens afterwards is an interleaving of the steps of these
  goroutines and of the \<^verbatim>\<open>range\<close> loop of \<^verbatim>\<open>main\<close> that receives from \<^verbatim>\<open>cp\<close>.
  A goroutine is at one of four places:
  \<^item> \<open>Ready filePath\<close>: started, \<^verbatim>\<open>f.Scan()\<close> not yet finished;
  \<^item> \<open>Sending f\<close>: scanned, blocked in \<^verbatim>\<open>cp <- f\<close>;
  \<^item> \<open>Sent f\<close>: the send is done, the deferred \<^verbatim>\<open>wg.Done()\<close> is still to run;
  \<^item> \<open>Finished f\<close>: returned.
  The state holds the goroutines in the order of \<^verbatim>\<open>filePaths\<close>, the counter of the
  \<^verbatim>\<open>WaitGroup\<close>, whether \<^verbatim>\<open>close(cp)\<close> has run, the values the \<^verbatim>\<open>range\<close> loop has received so
  far, and whether a goroutine has panicked.
\<close>

datatype task = Ready string | Sending File | Sent File | Finished File

record system =
  tasks :: "task list"
  wg :: int
  closed :: bool
  received :: "File list"
  panicked :: bool

definition ScanFiles :: "string list \<Rightarrow> system" where
  "ScanFiles filePaths =
     \<lparr>tasks = map Ready filePaths, wg = int (length filePaths), closed = False,
      received = [], panicked = False\<rparr>"

text \<open>
  What a goroutine computes between its start and its send: the record for its path,
  scanned. \<^verbatim>\<open>beforeFn\<close> and \<^verbatim>\<open>afterFn\<close> only print.
\<close>

definition scanned :: "filesystem \<Rightarrow> Regexp option \<Rightarrow> Regexp option \<Rightarrow> string \<Rightarrow> File" where
  "scanned fs m ig filePath = fst (Scan fs (new_File filePath m ig))"

text \<open>
  The steps. \<open>Scanned i\<close>: goroutine \<open>i\<close> runs up to its send. \<open>Deliver i\<close>: the send of
  goroutine \<open>i\<close> meets the receive of the \<^verbatim>\<open>range\<close> loop (the channel has no buffer, so a
  send completes exactly when its value is received); a send on a closed channel panics.
  \<open>Done i\<close>: the deferred \<^verbatim>\<open>wg.Done()\<close>. \<open>Close_cp\<close>: \<^verbatim>\<open>wg.Wait()\<close> returns, which it does
  only when the counter is zero, and \<^verbatim>\<open>close(cp)\<close> runs. A step that is not enabled in a
  state is \<open>None\<close>; nothing runs after a panic.
\<close>

datatype event = Scanned nat | Deliver nat | Done nat | Close_cp

fun step :: "filesystem \<Rightarrow> Regexp option \<Rightarrow> Regexp option \<Rightarrow> event \<Rightarrow> system \<Rightarrow> system option" where
  "step fs m ig (Scanned i) s =
     (if panicked s \<or> length (tasks s) \<le> i then None
      else case tasks s ! i of
          Ready filePath \<Rightarrow>
            Some (s\<lparr>tasks := (tasks s)[i := Sending (scanned fs m ig filePath)]\<rparr>)
        | _ \<Rightarrow> None)"
| "step fs m ig (Deliver i) s =
     (if panicked s \<or> length (tasks s) \<le> i then None
      else case tasks s ! i of
          Sending f \<Rightarrow>
            if closed s then Some (s\<lparr>panicked := True\<rparr>)
            else Some (s\<lparr>received := received s @ [f], tasks := (tasks s)[i := Sent f]\<rparr>)
        | _ \<Rightarrow> None)"
| "step fs m ig (Done i) s =
     (if panicked s \<or> length (tasks s) \<le> i then None
      else case tasks s ! i of
          Sent f \<Rightarrow> Some (s\<lparr>wg := wg s - 1, tasks := (tasks s)[i := Finished f]\<rparr>)
        | _ \<Rightarrow> None)"
| "step fs m ig Close_cp s =
     (if panicked s \<or> wg s \<noteq> 0 \<or> closed s then None else Some (s\<lparr>closed := True\<rparr>))"

text \<open>A schedule is a list of steps; it runs if each step is enabled when its turn comes.\<close>

fun exec :: "filesystem \<Rightarrow> Regexp option \<Rightarrow> Regexp option \<Rightarrow> event list \<Rightarrow> system \<Rightarrow> system option" where
  "exec fs m ig [] s = Some s"
| "exec fs m ig (e # es) s =
     (case step fs m ig e s of None \<Rightarrow> None | Some s' \<Rightarrow> exec fs m ig es s')"

section \<open>The buffered reader over a regular file\<close>

text \<open>
  \<^verbatim>\<open>bufio.NewReader(file)\<close> has a buffer of 4096 bytes. The reader's state is the unread part
  of its buffer (\<^verbatim>\<open>b.buf[b.r:b.w]\<close>), what the file still holds, and the pending error
  \<^verbatim>\<open>b.err\<close>. A regular file is its contents and the error its \<^verbatim>\<open>Read\<close> returns once the
  contents are used up (\<^verbatim>\<open>io.EOF\<close> unless the device fails); \<^verbatim>\<open>Read\<close> fills the slice it is
  given as far as the contents reach.
  The functions of \<^verbatim>\<open>bufio\<close> that are transcribed:
  \<^verbatim>\<open>func (b *Reader) fill() {
      if b.r > 0 { copy(b.buf, b.buf[b.r:b.w]); b.w -= b.r; b.r = 0 }
      ...
      n, err := b.rd.Read(b.buf[b.w:]); b.w += n
      if err != nil { b.err = err; return }
      if n > 0 { return } ... }\<close>
  \<^verbatim>\<open>func (b *Reader) ReadSlice(delim byte) (line []byte, err error) {
      s := 0
      for {
          if i := bytes.IndexByte(b.buf[b.r+s:b.w], delim); i >= 0 {
              i += s; line = b.buf[b.r : b.r+i+1]; b.r += i + 1; break }
          if b.err != nil { line = b.buf[b.r:b.w]; b.r = b.w; err = b.readErr(); break }
          if b.Buffered() >= len(b.buf) {
              b.r = b.w; line = b.buf; err = ErrBufferFull; break }
          s = b.w - b.r
          b.fill()
      } ... }\<close>
  \<^verbatim>\<open>func (b *Reader) ReadLine() (line []byte, isPrefix bool, err error) {
      line, err = b.ReadSlice('\n')
      if err == ErrBufferFull {
          if len(line) > 0 && line[len(line)-1] == '\r' { b.r--; line = line[:len(line)-1] }
          return line, true, nil }
      if len(line) == 0 { if err != nil { line = nil }; return }
      err = nil
      if line[len(line)-1] == '\n' {
          drop := 1
          if len(line) > 1 && line[len(line)-2] == '\r' { drop = 2 }
          line = line[:len(line)-drop] }
      return }\<close>
  \<^verbatim>\<open>fill\<close> moves the unread bytes to the front of the buffer and reads into the rest.
  \<^verbatim>\<open>ReadSlice('\n')\<close> looks for the delimiter in the buffer, then for a pending error, then
  for a full buffer, and otherwise fills and looks again (the search resumes where the last
  one stopped, which finds what a search of the whole buffer finds); its own
  \<^verbatim>\<open>ErrBufferFull\<close> is kept apart from the errors of the file. \<^verbatim>\<open>ReadLine\<close> turns \<^verbatim>\<open>ErrBufferFull\<close> into a chunk with
  \<^verbatim>\<open>isPrefix\<close> (putting back a final carriage return), returns the error if there are no
  bytes, and otherwise drops the error and the line end.
\<close>

definition defaultBufSize :: nat where
  "defaultBufSize = 4096"

record Reader =
  buf :: string
  rd :: string
  err :: "error option"

definition NewReader :: "string \<Rightarrow> Reader" where
  "NewReader contents = \<lparr>buf = [], rd = contents, err = None\<rparr>"

definition fill :: "error \<Rightarrow> Reader \<Rightarrow> Reader" where
  "fill fin b =
     (if rd b = [] then b\<lparr>err := Some fin\<rparr>
      else b\<lparr>buf := buf b @ take (defaultBufSize - length (buf b)) (rd b),
             rd := drop (defaultBufSize - length (buf b)) (rd b)\<rparr>)"

lemma fill_measure:
  "err b = None \<Longrightarrow> length (buf b) < defaultBufSize \<Longrightarrow>
   length (rd (fill fin b)) + (if err (fill fin b) = None then 1 else 0) < length (rd b) + 1"
  by (cases "rd b") (auto simp: fill_def)

lemma fill_total:
  "length (buf (fill fin b)) + length (rd (fill fin b)) = length (buf b) + length (rd b)"
  by (auto simp: fill_def)

datatype ReadSlice_err = NoError | BufferFull | ReadError error

function ReadSlice :: "error \<Rightarrow> Reader \<Rightarrow> string \<times> ReadSlice_err \<times> Reader" where
  "ReadSlice fin b =
     (if CHR 0x0A \<in> set (buf b)
      then (takeWhile (\<lambda>c. c \<noteq> CHR 0x0A) (buf b) @ [CHR 0x0A], NoError,
            b\<lparr>buf := tl (dropWhile (\<lambda>c. c \<noteq> CHR 0x0A) (buf b))\<rparr>)
      else case err b of
          Some e \<Rightarrow> (buf b, ReadError e, b\<lparr>buf := [], err := None\<rparr>)
        | None \<Rightarrow>
            if length (buf b) \<ge> defaultBufSize then (buf b, BufferFull, b\<lparr>buf := []\<rparr>)
            else ReadSlice fin (fill fin b))"
  by pat_completeness auto
termination
proof (relation "measure (\<lambda>(fin, b). length (rd b) + (if err b = None then 1 else 0))")
  fix fin :: error and b :: Reader
  assume "CHR 0x0A \<notin> set (buf b)" "err b = None" "\<not> defaultBufSize \<le> length (buf b)"
  then show "((fin, fill fin b), (fin, b)) \<in>
      measure (\<lambda>(fin, b). length (rd b) + (if err b = None then 1 else 0))"
    using fill_measure[of b fin] by simp
qed simp

declare ReadSlice.simps [simp del]

definition ReadLine :: "error \<Rightarrow> Reader \<Rightarrow> ReadLine_result \<times> Reader" where
  "ReadLine fin b =
     (case ReadSlice fin b of (line, e, b') \<Rightarrow>
        if e = BufferFull
        then (if line \<noteq> [] \<and> last line = CHR 0x0D
              then (Chunk (butlast line) True, b'\<lparr>buf := CHR 0x0D # buf b'\<rparr>)
              else (Chunk line True, b'))
        else if line = []
        then (case e of ReadError e' \<Rightarrow> (Failure e', b') | _ \<Rightarrow> (Chunk [] False, b'))
        else if last line = CHR 0x0A
        then (if length line > 1 \<and> line ! (length line - 2) = CHR 0x0D
              then (Chunk (take (length line - 2) line) False, b')
              else (Chunk (take (length line - 1) line) False, b'))
        else (Chunk line False, b'))"

lemma ReadSlice_cases:
  "ReadSlice fin b = (line, e, b') \<Longrightarrow>
     length (buf b') + length (rd b') + length line = length (buf b) + length (rd b) \<and>
     (e = NoError \<longrightarrow> 0 < length line) \<and>
     (e = BufferFull \<longrightarrow> length line \<ge> defaultBufSize \<and> buf b' = [])"
proof (induction fin b rule: ReadSlice.induct)
  case (1 fin b)
  show ?case
  proof (cases "CHR 0x0A \<in> set (buf b)")
    case True
    have len: "length (takeWhile (\<lambda>c. c \<noteq> CHR 0x0A) (buf b)) +
               length (dropWhile (\<lambda>c. c \<noteq> CHR 0x0A) (buf b)) = length (buf b)"
      by (metis length_append takeWhile_dropWhile_id)
    have "dropWhile (\<lambda>c. c \<noteq> CHR 0x0A) (buf b) \<noteq> []"
      using True by (simp add: dropWhile_eq_Nil_conv)
    then have "length (tl (dropWhile (\<lambda>c. c \<noteq> CHR 0x0A) (buf b))) + 1 =
               length (dropWhile (\<lambda>c. c \<noteq> CHR 0x0A) (buf b))"
      by (cases "dropWhile (\<lambda>c. c \<noteq> CHR 0x0A) (buf b)") auto
    with len have tot: "length (tl (dropWhile (\<lambda>c. c \<noteq> CHR 0x0A) (buf b))) +
        length (takeWhile (\<lambda>c. c \<noteq> CHR 0x0A) (buf b) @ [CHR 0x0A]) = length (buf b)"
      by simp
    from True "1.prems" have
      "line = takeWhile (\<lambda>c. c \<noteq> CHR 0x0A) (buf b) @ [CHR 0x0A]" "e = NoError"
      "b' = b\<lparr>buf := tl (dropWhile (\<lambda>c. c \<noteq> CHR 0x0A) (buf b))\<rparr>"
      by (subst (asm) ReadSlice.simps, simp)+
    with tot show ?thesis by simp
  next
    case nl: False
    show ?thesis
    proof (cases "err b")
      case (Some e0)
      with nl "1.prems" show ?thesis by (subst (asm) ReadSlice.simps) auto
    next
      case none: None
      show ?thesis
      proof (cases "length (buf b) \<ge> defaultBufSize")
        case True
        with nl none "1.prems" show ?thesis by (subst (asm) ReadSlice.simps) auto
      next
        case False
        with nl none "1.prems" have "ReadSlice fin (fill fin b) = (line, e, b')"
          by (subst (asm) ReadSlice.simps) auto
        from "1.IH"[OF nl none False this] show ?thesis by (simp add: fill_total)
      qed
    qed
  qed
qed

lemma ReadLine_consumes:
  assumes "ReadLine fin b = (Chunk c p, b')"
  shows "length (buf b') + length (rd b') < length (buf b) + length (rd b)"
proof -
  obtain line e b1 where rs: "ReadSlice fin b = (line, e, b1)"
    by (cases "ReadSlice fin b") auto
  from ReadSlice_cases[OF rs]
  have tot: "length (buf b1) + length (rd b1) + length line = length (buf b) + length (rd b)"
    and nonempty: "e = NoError \<Longrightarrow> 0 < length line"
    and full: "e = BufferFull \<Longrightarrow> length line \<ge> defaultBufSize \<and> buf b1 = []"
    by auto
  show ?thesis
  proof (cases "e = BufferFull")
    case True
    with full have "length line \<ge> 4096" "buf b1 = []" by (auto simp: defaultBufSize_def)
    with assms rs True tot show ?thesis
      by (auto simp: ReadLine_def split: if_splits)
  next
    case False
    show ?thesis
    proof (cases "line = []")
      case True
      with nonempty have "e \<noteq> NoError" by auto
      with assms rs False True show ?thesis
        by (cases e) (auto simp: ReadLine_def split: if_splits)
    next
      case ne: False
      then have "0 < length line" by simp
      with tot have "length (buf b1) + length (rd b1) < length (buf b) + length (rd b)"
        by linarith
      moreover from assms rs False ne have "b' = b1"
        by (auto simp: ReadLine_def split: if_splits)
      ultimately show ?thesis by simp
    qed
  qed
qed

text \<open>
  The results of the successive calls of \<^verbatim>\<open>ReadLine\<close> on a reader, up to the first error:
  what the loop of \<^verbatim>\<open>File.Scan\<close> sees of the file.
\<close>

function ReadLine_results :: "error \<Rightarrow> Reader \<Rightarrow> ReadLine_result list" where
  "ReadLine_results fin b =
     (case ReadLine fin b of
        (Failure e, b') \<Rightarrow> [Failure e]
      | (Chunk c p, b') \<Rightarrow> Chunk c p # ReadLine_results fin b')"
  by pat_completeness auto
termination
  by (relation "measure (\<lambda>(fin, b). length (buf b) + length (rd b))")
     (auto dest: ReadLine_consumes[OF sym])

declare ReadLine_results.simps [simp del]

text \<open>A disk maps a path to an error of \<^verbatim>\<open>os.Open\<close> or to a regular file.\<close>

type_synonym disk = "string \<Rightarrow> error + string \<times> error"

definition mount :: "disk \<Rightarrow> filesystem" where
  "mount d filePath =
     (case d filePath of
        Inl e \<Rightarrow> Inl e
      | Inr (contents, fin) \<Rightarrow> Inr (ReadLine_results fin (NewReader contents)))"

section \<open>Inputs of the examples\<close>

text \<open>The UTF-8 bytes of three Greek letters each.\<close>

definition alpha_beta_gamma :: string where
  "alpha_beta_gamma = [CHR 0xCE, CHR 0xB1, CHR 0xCE, CHR 0xB2, CHR 0xCE, CHR 0xB3]"

definition delta_epsilon_zeta :: string where
  "delta_epsilon_zeta = [CHR 0xCE, CHR 0xB4, CHR 0xCE, CHR 0xB5, CHR 0xCE, CHR 0xB6]"

text \<open>
  A file system given by the results of \<^verbatim>\<open>ReadLine\<close>: a file of two lines, and a file whose
  second read fails.
\<close>

definition example_fs :: filesystem where
  "example_fs filePath =
     (if filePath = ''ignore.go''
      then Inr [Chunk (''// '' @ alpha_beta_gamma) False, Chunk delta_epsilon_zeta False,
                Failure EOF]
      else if filePath = ''broken.go''
      then Inr [Chunk alpha_beta_gamma False,
                Failure (PathError ''read broken.go: input/output error'')]
      else Inl (PathError (''open '' @ filePath @ '': no such file or directory'')))"

text \<open>A disk with one file: 8192 letters and no line end.\<close>

definition example_disk :: disk where
  "example_disk filePath =
     (if filePath = ''long.txt'' then Inr (replicate 8192 (CHR ''a''), EOF)
      else Inl (PathError (''open '' @ filePath @ '': no such file or directory'')))"

text \<open>Files as \<^verbatim>\<open>bufio.Scanner\<close> delivers them to \<^verbatim>\<open>Data.Scan\<close>, and its callback.\<close>

definition example_scanner_files :: scanner_files where
  "example_scanner_files filePath =
     (if filePath = ''a.go'' then Inr ([''abc'', ''xyz''], None)
      else if filePath = ''toolong.go'' then Inr ([''abc''], Some ErrTooLong)
      else Inl (PathError (''open '' @ filePath @ '': no such file or directory'')))"

definition never_comment :: "string \<Rightarrow> bool" where
  "never_comment s = False"

section \<open>Properties of \<^verbatim>\<open>File.Scan\<close>\<close>

text \<open>
  The logical lines that a sequence of \<^verbatim>\<open>ReadLine\<close> results delivers before its first
  error: the chunks with \<^verbatim>\<open>isPrefix\<close> are the beginning of the line that the next chunk
  without it ends.
\<close>

fun logical_lines :: "ReadLine_result list \<Rightarrow> string \<Rightarrow> string list" where
  "logical_lines [] line = []"
| "logical_lines (Failure e # rest) line = []"
| "logical_lines (Chunk chunk isPrefix # rest) line =
     (if isPrefix then logical_lines rest (line @ chunk)
      else (line @ chunk) # logical_lines rest [])"

definition chunks :: "(string \<times> bool) list \<Rightarrow> ReadLine_result list" where
  "chunks cs = map (\<lambda>(c, p). Chunk c p) cs"

lemma Scan_loop_fields [simp]:
  "path (Scan_loop m reads line n f) = path f"
  "matchRegex (Scan_loop m reads line n f) = matchRegex f"
  "ignoreRegex (Scan_loop m reads line n f) = ignoreRegex f"
  by (induction m reads line n f rule: Scan_loop.induct) auto

lemma Scan_loop_matchedLines:
  "matchedLines (Scan_loop m reads line n f) k =
     (let ls = logical_lines reads line in
      if n < k \<and> k \<le> n + length ls \<and> \<not> ignores (ignoreRegex f) (ls ! (k - n - 1)) \<and>
         m (ls ! (k - n - 1))
      then Some (ls ! (k - n - 1)) else matchedLines f k)"
proof (induction m reads line n f rule: Scan_loop.induct)
  case (1 m line lineNumber f)
  then show ?case by auto
next
  case (2 m e rest line lineNumber f)
  then show ?case by auto
next
  case (3 m chunk isPrefix rest line lineNumber f)
  show ?case
  proof (cases isPrefix)
    case True
    with 3 show ?thesis by simp
  next
    case False
    show ?thesis
    proof (cases "k = lineNumber + 1")
      case True
      with False 3 show ?thesis by (auto simp: Let_def)
    next
      case neq: False
      have nth: "lineNumber + 1 < k \<Longrightarrow>
          ((line @ chunk) # xs) ! (k - lineNumber - 1) = xs ! (k - (lineNumber + 1) - 1)"
        for xs :: "string list"
        by (cases "k - lineNumber - 1") auto
      from neq False 3 show ?thesis
        by (auto simp: Let_def nth)
    qed
  qed
qed

lemma Scan_loop_chunks_scanError:
  "scanError (Scan_loop m (chunks cs) line n f) = scanError f"
  by (induction cs arbitrary: line n f) (auto simp: chunks_def)

lemma Scan_loop_chunks_Failure:
  "Scan_loop m (chunks cs @ Failure e # rest) line n f =
     (if e \<noteq> EOF then (Scan_loop m (chunks cs) line n f)\<lparr>scanError := Some e\<rparr>
      else Scan_loop m (chunks cs) line n f)"
  by (induction cs arbitrary: line n f) (auto simp: chunks_def)

lemma Scan_loop_scanError_cases:
  "scanError (Scan_loop m reads line n f) = scanError f \<or>
   (\<exists>e. Failure e \<in> set reads \<and> e \<noteq> EOF \<and> scanError (Scan_loop m reads line n f) = Some e)"
  by (induction m reads line n f rule: Scan_loop.induct) auto

lemma Scan_loop_prefix_chunks:
  "Scan_loop m (map (\<lambda>c. Chunk c True) cs @ Chunk c False # rest) line n f =
   Scan_loop m (Chunk (concat cs @ c) False # rest) line n f"
  by (induction cs arbitrary: line) auto

lemma non_ascii_examples [simp]:
  "non_ascii alpha_beta_gamma" "non_ascii delta_epsilon_zeta"
  by (simp_all add: non_ascii_def alpha_beta_gamma_def delta_epsilon_zeta_def)

text \<open>
  C9. With a nil match pattern \<^verbatim>\<open>Scan\<close> returns at once: the file is not opened (no call
  to the operating system is made) and the record is unchanged, so its matched lines stay
  as they were (empty, for the record \<^verbatim>\<open>ScanFiles\<close> builds) and its error stays nil.
\<close>

theorem Scan_nil_matchRegex:
  assumes "matchRegex f = None"
  shows "Scan fs f = (f, [])"
  using assms by (simp add: Scan_def)

theorem Scan_nil_matchRegex_witness:
  "matchRegex (new_File ''ignore.go'' None (Some slash_slash)) = None \<and>
   snd (Scan example_fs (new_File ''ignore.go'' None (Some slash_slash))) = [] \<and>
   MatchedLines (fst (Scan example_fs (new_File ''ignore.go'' None (Some slash_slash)))) = Map.empty \<and>
   Error (fst (Scan example_fs (new_File ''ignore.go'' None (Some slash_slash)))) = None"
  using Scan_nil_matchRegex [of "new_File ''ignore.go'' None (Some slash_slash)" example_fs]
  by (simp add: new_File_def MatchedLines_def Error_def)

text \<open>
  C7. With a match pattern set, a path that fails to open gives the record with the open
  error as its failure and nothing else changed: the matched lines are untouched (empty
  for a new record) and only the failed \<^verbatim>\<open>Open\<close> was attempted. When every \<^verbatim>\<open>ReadLine\<close>
  succeeds until the end of the stream (\<^verbatim>\<open>io.EOF\<close>), the error of the record stays as it
  was (nil for a new record), whatever the matched lines are.
\<close>

theorem Scan_open_failure_and_EOF:
  assumes "matchRegex f = Some m"
  shows "(fs (path f) = Inl e \<longrightarrow>
            Scan fs f = (f\<lparr>scanError := Some e\<rparr>, [Open (path f)])) \<and>
         (fs (path f) = Inr (chunks cs @ tail) \<and> (tail = [] \<or> (\<exists>rest. tail = Failure EOF # rest)) \<longrightarrow>
            scanError (fst (Scan fs f)) = scanError f)"
proof (intro conjI impI)
  assume "fs (path f) = Inl e"
  with assms show "Scan fs f = (f\<lparr>scanError := Some e\<rparr>, [Open (path f)])"
    by (simp add: Scan_def)
next
  assume a: "fs (path f) = Inr (chunks cs @ tail) \<and> (tail = [] \<or> (\<exists>rest. tail = Failure EOF # rest))"
  then consider "tail = []" | rest where "tail = Failure EOF # rest" by blast
  then show "scanError (fst (Scan fs f)) = scanError f"
  proof cases
    case 1
    with a assms show ?thesis by (simp add: Scan_def Scan_loop_chunks_scanError)
  next
    case 2
    with a assms show ?thesis
      by (simp add: Scan_def Scan_loop_chunks_Failure Scan_loop_chunks_scanError)
  qed
qed

theorem Scan_open_failure_and_EOF_witness:
  "Scan example_fs (new_File ''missing.go'' (Some non_ascii) None) =
     (\<lparr>path = ''missing.go'', matchRegex = Some non_ascii, ignoreRegex = None,
       matchedLines = Map.empty,
       scanError = Some (PathError ''open missing.go: no such file or directory'')\<rparr>,
      [Open ''missing.go'']) \<and>
   example_fs ''ignore.go'' =
     Inr (chunks [(''// '' @ alpha_beta_gamma, False), (delta_epsilon_zeta, False)] @ [Failure EOF]) \<and>
   scanError (fst (Scan example_fs (new_File ''ignore.go'' (Some non_ascii) None))) = None"
proof -
  have m1: "matchRegex (new_File ''missing.go'' (Some non_ascii) None) = Some non_ascii"
    and m2: "matchRegex (new_File ''ignore.go'' (Some non_ascii) None) = Some non_ascii"
    by (simp_all add: new_File_def)
  have r: "example_fs ''ignore.go'' =
     Inr (chunks [(''// '' @ alpha_beta_gamma, False), (delta_epsilon_zeta, False)] @ [Failure EOF])"
    by (simp add: example_fs_def chunks_def)
  from Scan_open_failure_and_EOF [OF m1, of example_fs
      "PathError ''open missing.go: no such file or directory''"]
  have "Scan example_fs (new_File ''missing.go'' (Some non_ascii) None) =
     (\<lparr>path = ''missing.go'', matchRegex = Some non_ascii, ignoreRegex = None,
       matchedLines = Map.empty,
       scanError = Some (PathError ''open missing.go: no such file or directory'')\<rparr>,
      [Open ''missing.go''])"
    by (simp add: new_File_def example_fs_def)
  moreover from Scan_open_failure_and_EOF [OF m2, of example_fs _
      "[(''// '' @ alpha_beta_gamma, False), (delta_epsilon_zeta, False)]" "[Failure EOF]"] r
  have "scanError (fst (Scan example_fs (new_File ''ignore.go'' (Some non_ascii) None))) = None"
    by (simp add: new_File_def)
  ultimately show ?thesis using r by simp
qed

text \<open>
  C1, as the code has it. On the first \<^verbatim>\<open>ReadLine\<close> error other than \<^verbatim>\<open>io.EOF\<close> the loop
  stops, whatever the reader would return afterwards, and the error becomes the failure of
  the record. The lines matched before the error are kept: the matched lines are those of
  a scan of the same file ending at that point. (\<^verbatim>\<open>main\<close> skips a record whose \<^verbatim>\<open>Error()\<close>
  is not nil, so they are never reported.)
\<close>

theorem Scan_read_error_keeps_matches:
  assumes "matchRegex f = Some m"
    and "fs (path f) = Inr (chunks cs @ Failure e # rest)"
    and "e \<noteq> EOF"
  shows "scanError (fst (Scan fs f)) = Some e \<and>
         matchedLines (fst (Scan fs f)) =
           matchedLines (fst (Scan (fs(path f := Inr (chunks cs))) f))"
  using assms by (simp add: Scan_def Scan_loop_chunks_Failure)

theorem Scan_read_error_keeps_matches_witness:
  "example_fs ''broken.go'' =
     Inr (chunks [(alpha_beta_gamma, False)] @
          Failure (PathError ''read broken.go: input/output error'') # []) \<and>
   scanError (fst (Scan example_fs (new_File ''broken.go'' (Some non_ascii) None))) =
     Some (PathError ''read broken.go: input/output error'') \<and>
   matchedLines (fst (Scan example_fs (new_File ''broken.go'' (Some non_ascii) None))) =
     [1 \<mapsto> alpha_beta_gamma]"
proof -
  have m: "matchRegex (new_File ''broken.go'' (Some non_ascii) None) = Some non_ascii"
    by (simp add: new_File_def)
  have p: "path (new_File ''broken.go'' (Some non_ascii) None) = ''broken.go''"
    by (simp add: new_File_def)
  have r: "example_fs ''broken.go'' =
     Inr (chunks [(alpha_beta_gamma, False)] @
          Failure (PathError ''read broken.go: input/output error'') # [])"
    by (simp add: example_fs_def chunks_def)
  have "matchedLines (fst (Scan (example_fs(''broken.go'' := Inr (chunks [(alpha_beta_gamma, False)])))
          (new_File ''broken.go'' (Some non_ascii) None))) = [1 \<mapsto> alpha_beta_gamma]"
    by (simp add: Scan_def new_File_def chunks_def ignores_def)
  with Scan_read_error_keeps_matches [OF m, of example_fs "[(alpha_beta_gamma, False)]"
      "PathError ''read broken.go: input/output error''" "[]"] r p
  show ?thesis by simp
qed

text \<open>
  The claim as the specification states it fails: a record can have both a failure and
  matched lines.
\<close>

theorem Scan_read_error_counterexample:
  "scanError (fst (Scan example_fs (new_File ''broken.go'' (Some non_ascii) None))) \<noteq> None \<and>
   matchedLines (fst (Scan example_fs (new_File ''broken.go'' (Some non_ascii) None))) \<noteq> Map.empty"
proof -
  have "fst (Scan example_fs (new_File ''broken.go'' (Some non_ascii) None)) =
     \<lparr>path = ''broken.go'', matchRegex = Some non_ascii, ignoreRegex = None,
      matchedLines = [1 \<mapsto> alpha_beta_gamma],
      scanError = Some (PathError ''read broken.go: input/output error'')\<rparr>"
    by (simp add: Scan_def new_File_def example_fs_def ignores_def)
  then show ?thesis by simp
qed

text \<open>
  C4. Number the logical lines of the file from 1, ignored lines included. The matched
  lines of the scanned record hold, at line number \<open>k\<close>, the \<open>k\<close>-th logical line if the
  ignore pattern does not match it (or is nil) and the match pattern matches it, and
  otherwise what the record held before (nothing, for a new record). So a line that the
  ignore pattern matches is not recorded, whatever the match pattern says of it, and the
  lines after it keep their positions as line numbers.
\<close>

theorem Scan_ignored_lines_keep_numbering:
  assumes "matchRegex f = Some m" and "fs (path f) = Inr reads"
  shows "matchedLines (fst (Scan fs f)) k =
     (if 0 < k \<and> k \<le> length (logical_lines reads []) \<and>
         \<not> ignores (ignoreRegex f) (logical_lines reads [] ! (k - 1)) \<and>
         m (logical_lines reads [] ! (k - 1))
      then Some (logical_lines reads [] ! (k - 1)) else matchedLines f k)"
  using assms Scan_loop_matchedLines [of m reads "[]" 0 f k]
  by (simp add: Scan_def Let_def)

theorem Scan_ignored_lines_keep_numbering_witness:
  "matchRegex (new_File ''ignore.go'' (Some non_ascii) (Some slash_slash)) = Some non_ascii \<and>
   example_fs (path (new_File ''ignore.go'' (Some non_ascii) (Some slash_slash))) =
     Inr [Chunk (''// '' @ alpha_beta_gamma) False, Chunk delta_epsilon_zeta False, Failure EOF] \<and>
   matchedLines (fst (Scan example_fs (new_File ''ignore.go'' (Some non_ascii) (Some slash_slash)))) =
     [2 \<mapsto> delta_epsilon_zeta]"
proof -
  let ?f = "new_File ''ignore.go'' (Some non_ascii) (Some slash_slash)"
  let ?reads = "[Chunk (''// '' @ alpha_beta_gamma) False, Chunk delta_epsilon_zeta False, Failure EOF]"
  have m: "matchRegex ?f = Some non_ascii" by (simp add: new_File_def)
  have r: "example_fs (path ?f) = Inr ?reads" by (simp add: new_File_def example_fs_def)
  have "matchedLines (fst (Scan example_fs ?f)) k = [2 \<mapsto> delta_epsilon_zeta] k" for k
  proof -
    consider "k = 0" | "k = 1" | "k = 2" | "2 < k" by linarith
    then show ?thesis
      using Scan_ignored_lines_keep_numbering [of ?f non_ascii example_fs ?reads k, OF m r]
      by cases (simp_all add: new_File_def ignores_def slash_slash_def non_ascii_def
          alpha_beta_gamma_def delta_epsilon_zeta_def)
  qed
  then have "matchedLines (fst (Scan example_fs ?f)) = [2 \<mapsto> delta_epsilon_zeta]" by (rule ext)
  with m r show ?thesis by simp
qed

section \<open>Properties of \<^verbatim>\<open>Data.Scan\<close> and \<^verbatim>\<open>Data.HasMatchedString\<close>\<close>



lemma Data_Scan_loop_compile_failure:
  "compile (matchString d) = Inl e \<Longrightarrow> \<exists>l \<in> set ls. \<not> fn l \<Longrightarrow>
   Data_Scan_loop compile fn ls n d = (d\<lparr>ScanError := Some e\<rparr>, False)"
  by (induction compile fn ls n d rule: Data_Scan_loop.induct)
     (auto simp: regexp_MatchString_def)




text \<open>
  C8, as the code has it. \<^verbatim>\<open>File.Scan\<close> receives compiled patterns and compiles nothing:
  the failure of its record after the scan is the one it had before, or the error of
  \<^verbatim>\<open>os.Open\<close>, or an error other than \<^verbatim>\<open>io.EOF\<close> that \<^verbatim>\<open>ReadLine\<close> returned. The older
  \<^verbatim>\<open>Data.Scan\<close> compiles its pattern for every line that the callback does not skip: when
  the pattern does not compile and the file has such a line, the compilation error is
  stored as the \<^verbatim>\<open>ScanError\<close> of that file, and \<^verbatim>\<open>isScanned\<close> is left as it was.
\<close>

theorem compile_failure_reporting:
  "(scanError (fst (Scan fs f)) = scanError f \<or>
    (\<exists>e. fs (path f) = Inl e \<and> scanError (fst (Scan fs f)) = Some e) \<or>
    (\<exists>reads e. fs (path f) = Inr reads \<and> Failure e \<in> set reads \<and> e \<noteq> EOF \<and>
       scanError (fst (Scan fs f)) = Some e)) \<and>
   (compile (matchString d) = Inl e' \<and> sfs (Data.path d) = Inr (ls, serr) \<and>
    (\<exists>l \<in> set ls. \<not> fn l) \<longrightarrow>
      ScanError (Data_Scan compile sfs fn d) = Some e' \<and>
      isScanned (Data_Scan compile sfs fn d) = isScanned d)"
proof (intro conjI impI)
  show "scanError (fst (Scan fs f)) = scanError f \<or>
    (\<exists>e. fs (path f) = Inl e \<and> scanError (fst (Scan fs f)) = Some e) \<or>
    (\<exists>reads e. fs (path f) = Inr reads \<and> Failure e \<in> set reads \<and> e \<noteq> EOF \<and>
       scanError (fst (Scan fs f)) = Some e)"
  proof (cases "matchRegex f")
    case None
    then show ?thesis by (simp add: Scan_def)
  next
    case (Some m)
    show ?thesis
    proof (cases "fs (path f)")
      case (Inl e)
      with Some show ?thesis by (simp add: Scan_def)
    next
      case (Inr reads)
      with Some Scan_loop_scanError_cases[of m reads "[]" 0 f] show ?thesis
        by (auto simp: Scan_def)
    qed
  qed
next
  assume a: "compile (matchString d) = Inl e' \<and> sfs (Data.path d) = Inr (ls, serr) \<and>
    (\<exists>l \<in> set ls. \<not> fn l)"
  then have "Data_Scan_loop compile fn ls 1 d = (d\<lparr>ScanError := Some e'\<rparr>, False)"
    by (intro Data_Scan_loop_compile_failure) auto
  with a show "ScanError (Data_Scan compile sfs fn d) = Some e'"
    and "isScanned (Data_Scan compile sfs fn d) = isScanned d"
    by (simp_all add: Data_Scan_def)
qed

theorem compile_failure_reporting_witness:
  "scanError (fst (Scan example_fs (new_File ''broken.go'' (Some non_ascii) None))) =
     Some (PathError ''read broken.go: input/output error'') \<and>
   Failure (PathError ''read broken.go: input/output error'') \<in>
     set [Chunk alpha_beta_gamma False, Failure (PathError ''read broken.go: input/output error'')] \<and>
   compile_examples (matchString (New ''a.go'' ''('')) = Inl (SyntaxError ''missing closing ): `(`'') \<and>
   example_scanner_files (Data.path (New ''a.go'' ''('')) = Inr ([''abc'', ''xyz''], None) \<and>
   (\<exists>l \<in> set [''abc'', ''xyz'']. \<not> never_comment l) \<and>
   ScanError (Data_Scan compile_examples example_scanner_files never_comment (New ''a.go'' ''('')) =
     Some (SyntaxError ''missing closing ): `(`'') \<and>
   \<not> isScanned (Data_Scan compile_examples example_scanner_files never_comment (New ''a.go'' ''(''))"
proof -
  have c: "compile_examples (matchString (New ''a.go'' ''('')) =
      Inl (SyntaxError ''missing closing ): `(`'')"
    by (simp add: compile_examples_def New_def)
  have s: "example_scanner_files (Data.path (New ''a.go'' ''('')) = Inr ([''abc'', ''xyz''], None)"
    by (simp add: example_scanner_files_def New_def)
  have l: "\<exists>l \<in> set [''abc'', ''xyz'']. \<not> never_comment l"
    by (auto simp: never_comment_def)
  have r: "scanError (fst (Scan example_fs (new_File ''broken.go'' (Some non_ascii) None))) =
     Some (PathError ''read broken.go: input/output error'')"
    by (simp add: Scan_def new_File_def example_fs_def ignores_def)
  from compile_failure_reporting
    [of example_fs "new_File ''broken.go'' (Some non_ascii) None" compile_examples
        "New ''a.go'' ''(''" "SyntaxError ''missing closing ): `(`''" example_scanner_files
        "[''abc'', ''xyz'']" None never_comment] c s l r
  show ?thesis by (simp add: New_def)
qed

text \<open>
  The claim as the specification states it fails for \<^verbatim>\<open>Data.Scan\<close>: the scan of one file
  reports the compilation failure of the pattern as the failure of that file.
\<close>

theorem Data_Scan_compile_failure_counterexample:
  "compile_examples ''('' = Inl (SyntaxError ''missing closing ): `(`'') \<and>
   ScanError (Data_Scan compile_examples example_scanner_files never_comment (New ''a.go'' ''('')) =
     Some (SyntaxError ''missing closing ): `(`'')"
  by (simp add: Data_Scan_def New_def example_scanner_files_def never_comment_def
      regexp_MatchString_def compile_examples_def)

section \<open>The last line of a file that fills the buffer\<close>

text \<open>
  Two lines with their line ends are read as two whole lines and the end of the stream:
  the results that \<open>example_fs\<close> gives for its first file.
\<close>

lemma ReadLine_results_two_lines:
  "ReadLine_results EOF
     (NewReader (''// '' @ alpha_beta_gamma @ [CHR 0x0A] @ delta_epsilon_zeta @ [CHR 0x0A])) =
   [Chunk (''// '' @ alpha_beta_gamma) False, Chunk delta_epsilon_zeta False, Failure EOF]"
  by (simp add: ReadLine_results.simps ReadLine_def ReadSlice.simps fill_def NewReader_def
      defaultBufSize_def alpha_beta_gamma_def delta_epsilon_zeta_def)

lemma ReadLine_results_long:
  "ReadLine_results EOF (NewReader (replicate 8192 (CHR ''a''))) =
     [Chunk (replicate 4096 (CHR ''a'')) True, Chunk (replicate 4096 (CHR ''a'')) True,
      Failure EOF]"
  by (simp add: ReadLine_results.simps ReadLine_def ReadSlice.simps fill_def NewReader_def
      defaultBufSize_def)

lemma ReadLine_results_long_terminated:
  "ReadLine_results EOF (NewReader (replicate 8192 (CHR ''a'') @ [CHR 0x0A])) =
     [Chunk (replicate 4096 (CHR ''a'')) True, Chunk (replicate 4096 (CHR ''a'')) True,
      Chunk [] False, Failure EOF]"
  by (simp add: ReadLine_results.simps ReadLine_def ReadSlice.simps fill_def NewReader_def
      defaultBufSize_def)

lemma contains_replicate: "contains [c] (replicate (Suc n) c)"
  by simp

text \<open>
  C5. A file of 8192 letters \<open>a\<close> without a line end is one logical line, twice as long as
  the buffer, and the pattern \<open>a\<close> matches it. \<^verbatim>\<open>ReadLine\<close> returns it as two chunks with
  \<^verbatim>\<open>isPrefix\<close> and then \<^verbatim>\<open>io.EOF\<close>; the loop leaves on \<^verbatim>\<open>io.EOF\<close> with the assembled line
  still pending, so the scanned record has no matched line and no error. The same line
  followed by a line end is recorded whole, as line 1.
\<close>

theorem Scan_drops_last_line_filling_buffer:
  "mount example_disk ''long.txt'' =
     Inr [Chunk (replicate 4096 (CHR ''a'')) True, Chunk (replicate 4096 (CHR ''a'')) True,
          Failure EOF] \<and>
   contains ''a'' (replicate 8192 (CHR ''a'')) \<and>
   matchedLines (fst (Scan (mount example_disk) (new_File ''long.txt'' (Some (contains ''a'')) None))) =
     Map.empty \<and>
   scanError (fst (Scan (mount example_disk) (new_File ''long.txt'' (Some (contains ''a'')) None))) =
     None \<and>
   matchedLines (fst (Scan (mount (example_disk(''long.txt'' := Inr (replicate 8192 (CHR ''a'') @ [CHR 0x0A], EOF))))
       (new_File ''long.txt'' (Some (contains ''a'')) None))) =
     [1 \<mapsto> replicate 8192 (CHR ''a'')]"
proof -
  have c: "contains ''a'' (replicate 8192 (CHR ''a''))"
    using contains_replicate[of "CHR ''a''" 8191] by simp
  have j: "replicate 4096 (CHR ''a'') @ replicate 4096 (CHR ''a'') = replicate 8192 (CHR ''a'')"
    by (simp add: replicate_add[symmetric])
  show ?thesis
    by (simp add: mount_def example_disk_def ReadLine_results_long
        ReadLine_results_long_terminated Scan_def new_File_def ignores_def c j
        del: contains.simps)
qed

section \<open>Properties of the heap\<close>

text \<open>
  The heap order on a slice: no element is smaller than its parent, the parent of index
  \<open>k\<close> being index \<open>(k - 1) div 2\<close>. While \<^verbatim>\<open>up\<close> or \<^verbatim>\<open>down\<close> runs, the order holds
  everywhere but at one index.
\<close>

definition parent :: "nat \<Rightarrow> nat" where
  "parent k = (k - 1) div 2"

definition ordered_below :: "Heap \<Rightarrow> nat \<Rightarrow> bool" where
  "ordered_below h n = (\<forall>k < n. 0 < k \<longrightarrow> path (h ! parent k) \<le> path (h ! k))"

definition heap_ordered :: "Heap \<Rightarrow> bool" where
  "heap_ordered h = ordered_below h (length h)"

definition ordered_but_up :: "Heap \<Rightarrow> nat \<Rightarrow> bool" where
  "ordered_but_up h j =
     ((\<forall>k < length h. 0 < k \<longrightarrow> k \<noteq> j \<longrightarrow> path (h ! parent k) \<le> path (h ! k)) \<and>
      (\<forall>k < length h. 0 < k \<longrightarrow> parent k = j \<longrightarrow> 0 < j \<longrightarrow>
          path (h ! parent j) \<le> path (h ! k)))"

definition ordered_but_down :: "Heap \<Rightarrow> nat \<Rightarrow> nat \<Rightarrow> bool" where
  "ordered_but_down h i n =
     ((\<forall>k < n. 0 < k \<longrightarrow> parent k \<noteq> i \<longrightarrow> path (h ! parent k) \<le> path (h ! k)) \<and>
      (\<forall>k < n. 0 < k \<longrightarrow> parent k = i \<longrightarrow> 0 < i \<longrightarrow>
          path (h ! parent i) \<le> path (h ! k)))"

definition smaller_child :: "Heap \<Rightarrow> nat \<Rightarrow> nat \<Rightarrow> nat" where
  "smaller_child h i n =
     (if 2 * i + 2 < n \<and> Less h (2 * i + 2) (2 * i + 1) then 2 * i + 2 else 2 * i + 1)"

lemma parent_less: "0 < k \<Longrightarrow> parent k < k"
  by (simp add: parent_def)

lemma parent_le: "parent k \<le> k"
  by (simp add: parent_def)

lemma parent_eq_self: "parent k = k \<longleftrightarrow> k = 0"
  by (simp add: parent_def) linarith

lemma parent_child: "0 < k \<Longrightarrow> parent k = i \<longleftrightarrow> k = 2 * i + 1 \<or> k = 2 * i + 2"
  by (simp add: parent_def) linarith

lemma up_unfold:
  "up h j = (if parent j = j \<or> \<not> Less h j (parent j) then h
             else up (Swap h (parent j) j) (parent j))"
  by (subst up.simps) (simp add: Let_def parent_def)

lemma up_induct [case_names step]:
  assumes "\<And>h j. (parent j \<noteq> j \<Longrightarrow> Less h j (parent j) \<Longrightarrow>
              P (Swap h (parent j) j) (parent j)) \<Longrightarrow> P h j"
  shows "P h j"
  by (induction h j rule: up.induct) (rule assms, simp add: parent_def)

lemma down_unfold:
  "down h i n =
     (if n \<le> 2 * i + 1 \<or> \<not> Less h (smaller_child h i n) i then h
      else down (Swap h i (smaller_child h i n)) (smaller_child h i n) n)"
  by (subst down.simps) (simp add: Let_def smaller_child_def)

lemma down_induct [case_names step]:
  assumes "\<And>h i n. (2 * i + 1 < n \<Longrightarrow> Less h (smaller_child h i n) i \<Longrightarrow>
              P (Swap h i (smaller_child h i n)) (smaller_child h i n) n) \<Longrightarrow> P h i n"
  shows "P h i n"
proof (induction h i n rule: down.induct)
  case (1 h i n)
  show ?case
  proof (rule assms)
    assume a: "2 * i + 1 < n" "Less h (smaller_child h i n) i"
    show "P (Swap h i (smaller_child h i n)) (smaller_child h i n) n"
      by (rule "1.IH"[of "2 * i + 1" "smaller_child h i n"])
         (use a in \<open>auto simp: smaller_child_def\<close>)
  qed
qed

lemma Swap_nth:
  "i < length h \<Longrightarrow> j < length h \<Longrightarrow>
   Swap h i j ! k = (if k = j then h ! i else if k = i then h ! j else h ! k)"
  by (auto simp: Swap_def nth_list_update)

lemma mset_Swap [simp]: "i < length h \<Longrightarrow> j < length h \<Longrightarrow> mset (Swap h i j) = mset h"
  by (simp add: Swap_def mset_swap)

lemma mset_up [simp]: "j < length h \<Longrightarrow> mset (up h j) = mset h"
proof (induction h j rule: up_induct)
  case (step h j)
  have lt: "parent j < length h" using step.prems parent_le[of j] by simp
  show ?case
  proof (cases "parent j = j \<or> \<not> Less h j (parent j)")
    case True
    then show ?thesis by (subst up_unfold) simp
  next
    case False
    then have "mset (up h j) = mset (up (Swap h (parent j) j) (parent j))"
      by (subst up_unfold) simp
    also have "\<dots> = mset (Swap h (parent j) j)"
      using False lt by (intro step.IH) auto
    finally show ?thesis using lt step.prems by simp
  qed
qed

lemma up_ordered:
  "ordered_but_up h j \<Longrightarrow> j < length h \<Longrightarrow> heap_ordered (up h j)"
proof (induction h j rule: up_induct)
  case (step h j)
  let ?i = "parent j"
  have A: "path (h ! parent k) \<le> path (h ! k)" if "k < length h" "0 < k" "k \<noteq> j" for k
    using step.prems(1) that by (simp add: ordered_but_up_def)
  have B: "path (h ! parent j) \<le> path (h ! k)"
    if "k < length h" "0 < k" "parent k = j" "0 < j" for k
    using step.prems(1) that by (simp add: ordered_but_up_def)
  show ?case
  proof (cases "?i = j \<or> \<not> Less h j ?i")
    case True
    then have eq: "up h j = h" by (subst up_unfold) simp
    have "path (h ! parent k) \<le> path (h ! k)" if "k < length h" "0 < k" for k
    proof (cases "k = j")
      case False
      with A that show ?thesis by simp
    next
      case kj: True
      with that True have "\<not> Less h j ?i" by (auto simp: parent_eq_self)
      with kj show ?thesis by (simp add: Less_def)
    qed
    then show ?thesis by (simp add: eq heap_ordered_def ordered_below_def)
  next
    case False
    then have neq: "?i \<noteq> j" and less: "path (h ! j) < path (h ! ?i)"
      by (auto simp: Less_def)
    have ij: "?i < j" using neq parent_le[of j] by simp
    have il: "?i < length h" using ij step.prems(2) by simp
    let ?h = "Swap h ?i j"
    have eq: "up h j = up ?h ?i"
      using False by (subst up_unfold) simp
    have nth: "?h ! k = (if k = j then h ! ?i else if k = ?i then h ! j else h ! k)" for k
      using il step.prems(2) by (rule Swap_nth)
    have "ordered_but_up ?h ?i"
      unfolding ordered_but_up_def
    proof (intro conjI allI impI)
      fix k assume k: "k < length ?h" "0 < k" "k \<noteq> ?i"
      then have kl: "k < length h" by simp
      show "path (?h ! parent k) \<le> path (?h ! k)"
      proof (cases "k = j")
        case True
        then show ?thesis using less neq by (simp add: nth)
      next
        case kj: False
        consider "parent k = j" | "parent k = ?i" | "parent k \<noteq> j" "parent k \<noteq> ?i"
          by blast
        then show ?thesis
        proof cases
          case 1
          then have "0 < j" using k(2) ij by linarith
          from B[OF kl k(2) 1 this] 1 kj k(3) neq show ?thesis by (simp add: nth)
        next
          case 2
          have "path (h ! ?i) \<le> path (h ! k)" using A[OF kl k(2) kj] 2 by simp
          with less 2 kj k(3) neq show ?thesis by (simp add: nth)
        next
          case 3
          with A[OF kl k(2) kj] kj k(3) show ?thesis by (simp add: nth)
        qed
      qed
    next
      fix k assume k: "k < length ?h" "0 < k" "parent k = ?i" "0 < ?i"
      then have kl: "k < length h" by simp
      have pi: "parent ?i < ?i" using k(4) by (rule parent_less)
      have pp: "path (h ! parent ?i) \<le> path (h ! ?i)"
        using A[OF il k(4)] neq by simp
      have k_ne_i: "k \<noteq> ?i" using k(3) parent_less[OF k(2)] by simp
      show "path (?h ! parent ?i) \<le> path (?h ! k)"
      proof (cases "k = j")
        case True
        with pp pi ij show ?thesis by (simp add: nth)
      next
        case False
        have "path (h ! ?i) \<le> path (h ! k)" using A[OF kl k(2) False] k(3) by simp
        with pp False k_ne_i pi ij show ?thesis by (simp add: nth)
      qed
    qed
    then have "heap_ordered (up ?h ?i)"
      using False il by (intro step.IH) auto
    then show ?thesis by (simp add: eq)
  qed
qed

lemma smaller_child_bounds:
  "2 * i + 1 < n \<Longrightarrow> i < smaller_child h i n \<and> smaller_child h i n < n \<and>
     parent (smaller_child h i n) = i"
  by (auto simp: smaller_child_def parent_def)

lemma smaller_child_least:
  assumes "2 * i + 1 < n" "k < n" "0 < k" "parent k = i"
  shows "path (h ! smaller_child h i n) \<le> path (h ! k)"
proof -
  from assms(3,4) have "k = 2 * i + 1 \<or> k = 2 * i + 2" by (simp add: parent_child)
  then show ?thesis using assms(2) by (auto simp: smaller_child_def Less_def)
qed

lemma mset_down [simp]: "n \<le> length h \<Longrightarrow> mset (down h i n) = mset h"
proof (induction h i n rule: down_induct)
  case (step h i n)
  show ?case
  proof (cases "n \<le> 2 * i + 1 \<or> \<not> Less h (smaller_child h i n) i")
    case True
    then show ?thesis by (subst down_unfold) simp
  next
    case False
    then have b: "i < smaller_child h i n" "smaller_child h i n < n"
      using smaller_child_bounds[of i n h] by auto
    from False have "mset (down h i n) =
        mset (down (Swap h i (smaller_child h i n)) (smaller_child h i n) n)"
      by (subst down_unfold) simp
    also have "\<dots> = mset (Swap h i (smaller_child h i n))"
      using False step.prems by (intro step.IH) auto
    finally show ?thesis using b step.prems by simp
  qed
qed

lemma down_nth_above: "n \<le> length h \<Longrightarrow> n \<le> k \<Longrightarrow> down h i n ! k = h ! k"
proof (induction h i n rule: down_induct)
  case (step h i n)
  show ?case
  proof (cases "n \<le> 2 * i + 1 \<or> \<not> Less h (smaller_child h i n) i")
    case True
    then show ?thesis by (subst down_unfold) simp
  next
    case False
    then have b: "i < smaller_child h i n" "smaller_child h i n < n"
      using smaller_child_bounds[of i n h] by auto
    from False have "down h i n ! k =
        down (Swap h i (smaller_child h i n)) (smaller_child h i n) n ! k"
      by (subst down_unfold) simp
    also have "\<dots> = Swap h i (smaller_child h i n) ! k"
      using False step.prems by (intro step.IH) auto
    also have "\<dots> = h ! k"
      using b step.prems by (simp add: Swap_nth)
    finally show ?thesis .
  qed
qed

lemma down_ordered:
  "ordered_but_down h i n \<Longrightarrow> n \<le> length h \<Longrightarrow> ordered_below (down h i n) n"
proof (induction h i n rule: down_induct)
  case (step h i n)
  let ?j = "smaller_child h i n"
  have A: "path (h ! parent k) \<le> path (h ! k)" if "k < n" "0 < k" "parent k \<noteq> i" for k
    using step.prems(1) that by (simp add: ordered_but_down_def)
  have B: "path (h ! parent i) \<le> path (h ! k)" if "k < n" "0 < k" "parent k = i" "0 < i" for k
    using step.prems(1) that by (simp add: ordered_but_down_def)
  show ?case
  proof (cases "n \<le> 2 * i + 1")
    case True
    then have eq: "down h i n = h" by (subst down_unfold) simp
    have "parent k \<noteq> i" if "k < n" "0 < k" for k
      using that True by (auto simp: parent_child)
    with A show ?thesis by (simp add: eq ordered_below_def)
  next
    case n: False
    then have n': "2 * i + 1 < n" by simp
    from smaller_child_bounds[OF n', of h]
    have ij: "i < ?j" and jn: "?j < n" and pj: "parent ?j = i" by auto
    have j0: "0 < ?j" using ij by simp
    show ?thesis
    proof (cases "Less h ?j i")
      case False
      then have eq: "down h i n = h" by (subst down_unfold) simp
      from False have le: "path (h ! i) \<le> path (h ! ?j)" by (simp add: Less_def)
      have "path (h ! parent k) \<le> path (h ! k)" if k: "k < n" "0 < k" for k
      proof (cases "parent k = i")
        case True
        from smaller_child_least[OF n' k True, of h] le True show ?thesis by simp
      next
        case False
        with A k show ?thesis by simp
      qed
      then show ?thesis by (simp add: eq ordered_below_def)
    next
      case True
      then have less: "path (h ! ?j) < path (h ! i)" by (simp add: Less_def)
      let ?h = "Swap h i ?j"
      have il: "i < length h" and jl: "?j < length h" using ij jn step.prems(2) by auto
      have nth: "?h ! k = (if k = ?j then h ! i else if k = i then h ! ?j else h ! k)" for k
        using il jl by (rule Swap_nth)
      have eq: "down h i n = down ?h ?j n"
        using n True by (subst down_unfold) simp
      have "ordered_but_down ?h ?j n"
        unfolding ordered_but_down_def
      proof (intro conjI allI impI)
        fix k assume k: "k < n" "0 < k" "parent k \<noteq> ?j"
        consider "k = ?j" | "k = i" | "k \<noteq> ?j" "k \<noteq> i" "parent k = i"
          | "k \<noteq> ?j" "k \<noteq> i" "parent k \<noteq> i" by blast
        then show "path (?h ! parent k) \<le> path (?h ! k)"
        proof cases
          case 1
          with pj less ij show ?thesis by (simp add: nth)
        next
          case 2
          then have i0: "0 < i" using k(2) by simp
          have "parent i < i" using i0 by (rule parent_less)
          with B[OF jn j0 pj i0] 2 ij show ?thesis by (simp add: nth)
        next
          case 3
          from smaller_child_least[OF n' k(1,2) 3(3), of h] 3 ij show ?thesis
            by (simp add: nth)
        next
          case 4
          with A[OF k(1,2)] k(3) show ?thesis by (simp add: nth)
        qed
      next
        fix k assume k: "k < n" "0 < k" "parent k = ?j" "0 < ?j"
        have "?j < k" using parent_less[OF k(2)] k(3) by simp
        then have ne: "k \<noteq> ?j" "k \<noteq> i" using ij by auto
        have "path (h ! ?j) \<le> path (h ! k)" using A[OF k(1,2)] k(3) ij by simp
        with ne pj ij show "path (?h ! parent ?j) \<le> path (?h ! k)" by (simp add: nth)
      qed
      then have "ordered_below (down ?h ?j n) n"
        using n' True step.prems(2) by (intro step.IH) auto
      then show ?thesis by (simp add: eq)
    qed
  qed
qed

lemma mset_heap_Push [simp]: "mset (heap_Push h x) = add_mset x (mset h)"
  by (simp add: heap_Push_def Push_def Len_def Let_def)

lemma heap_Push_ordered: "heap_ordered h \<Longrightarrow> heap_ordered (heap_Push h x)"
proof -
  assume h: "heap_ordered h"
  have "ordered_but_up (h @ [x]) (length h)"
    unfolding ordered_but_up_def
  proof (intro conjI allI impI)
    fix k assume k: "k < length (h @ [x])" "0 < k" "k \<noteq> length h"
    then have kl: "k < length h" by simp
    then have "parent k < length h" using parent_le[of k] by simp
    with h kl k(2) show "path ((h @ [x]) ! parent k) \<le> path ((h @ [x]) ! k)"
      by (simp add: heap_ordered_def ordered_below_def nth_append)
  next
    fix k assume k: "k < length (h @ [x])" "0 < k" "parent k = length h"
    from parent_less[OF k(2)] k(1,3) have False by simp
    then show "path ((h @ [x]) ! parent (length h)) \<le> path ((h @ [x]) ! k)" ..
  qed
  then have "heap_ordered (up (h @ [x]) (length h))"
    by (rule up_ordered) simp
  then show ?thesis by (simp add: heap_Push_def Push_def Len_def Let_def)
qed

lemma heap_ordered_root:
  "heap_ordered h \<Longrightarrow> k < length h \<Longrightarrow> path (h ! 0) \<le> path (h ! k)"
proof (induction k rule: less_induct)
  case (less k)
  show ?case
  proof (cases "k = 0")
    case True
    then show ?thesis by simp
  next
    case False
    then have k0: "0 < k" by simp
    have pk: "parent k < k" using k0 by (rule parent_less)
    have "path (h ! 0) \<le> path (h ! parent k)"
      using less.prems pk by (intro less.IH) auto
    also have "\<dots> \<le> path (h ! k)"
      using less.prems k0 by (simp add: heap_ordered_def ordered_below_def)
    finally show ?thesis .
  qed
qed

text \<open>
  \<^verbatim>\<open>heap.Pop\<close> on a heap that is not empty returns its first element and leaves the other
  elements; if the heap was ordered, the first element has the least path and what is left
  is ordered.
\<close>

lemma heap_Pop_Some:
  assumes "h \<noteq> []"
  shows "\<exists>h'. heap_Pop h = Some (h ! 0, h') \<and> add_mset (h ! 0) (mset h') = mset h \<and>
           length h' = length h - 1 \<and> (heap_ordered h \<longrightarrow> heap_ordered h')"
proof -
  let ?n = "length h - 1"
  let ?s = "Swap h 0 ?n"
  let ?d = "down ?s 0 ?n"
  from assms have n: "?n < length h" and pos: "0 < length h" by auto
  have len: "length ?d = length h" by simp
  have ne: "?d \<noteq> []"
  proof
    assume "?d = []"
    then have "length ?d = 0" by simp
    with len assms show False by simp
  qed
  have pop: "heap_Pop h = Some (last ?d, butlast ?d)"
    using assms ne by (simp add: heap_Pop_def Pop_def Len_def Let_def)
  have "last ?d = ?d ! ?n" using ne len by (simp add: last_conv_nth)
  also have "\<dots> = ?s ! ?n" by (rule down_nth_above) simp_all
  also have "\<dots> = h ! 0" using n pos by (simp add: Swap_nth)
  finally have last: "last ?d = h ! 0" .
  have "mset ?d = mset h" using n pos by simp
  moreover have "mset ?d = add_mset (last ?d) (mset (butlast ?d))"
  proof -
    have "mset (butlast ?d @ [last ?d]) = add_mset (last ?d) (mset (butlast ?d))" by simp
    with ne show ?thesis by simp
  qed
  ultimately have ms: "add_mset (h ! 0) (mset (butlast ?d)) = mset h"
    using last by simp
  have ord: "heap_ordered (butlast ?d)" if h: "heap_ordered h"
  proof -
    have "ordered_but_down ?s 0 ?n"
      unfolding ordered_but_down_def
    proof (intro conjI allI impI)
      fix k assume k: "k < ?n" "0 < k" "parent k \<noteq> 0"
      have pk: "parent k < k" using k(2) by (rule parent_less)
      from h k(1,2) have "path (h ! parent k) \<le> path (h ! k)"
        by (simp add: heap_ordered_def ordered_below_def)
      with k pk show "path (?s ! parent k) \<le> path (?s ! k)"
        using n pos by (simp add: Swap_nth)
    next
      fix k assume "(0::nat) < 0"
      then show "path (?s ! parent 0) \<le> path (?s ! k)" by simp
    qed
    then have ob: "ordered_below ?d ?n" by (rule down_ordered) simp
    have "path (butlast ?d ! parent k) \<le> path (butlast ?d ! k)"
      if k: "k < length (butlast ?d)" "0 < k" for k
    proof -
      from k have kn: "k < ?n" by simp
      then have "parent k < ?n" using parent_le[of k] by simp
      with kn ob k(2) show ?thesis by (simp add: ordered_below_def nth_butlast)
    qed
    then show ?thesis by (simp add: heap_ordered_def ordered_below_def)
  qed
  from pop last ms ord show ?thesis by simp
qed

lemma Print_Nil [simp]: "Print [] = []"
  by (subst Print.simps) (simp add: Len_def)

lemma Print_Pop: "heap_Pop h = Some (f, h') \<Longrightarrow> Print h = f # Print h'"
  by (subst Print.simps) (auto simp: Len_def heap_Pop_def split: if_splits)

lemma mset_Print [simp]: "mset (Print h) = mset h"
proof (induction h rule: length_induct)
  case (1 h)
  show ?case
  proof (cases "h = []")
    case True
    then show ?thesis by simp
  next
    case False
    from heap_Pop_Some[OF False] obtain h' where
      pop: "heap_Pop h = Some (h ! 0, h')" and
      ms: "add_mset (h ! 0) (mset h') = mset h" and
      len: "length h' = length h - 1" by blast
    have "length h' < length h" using len False by (cases h) auto
    with "1.IH" have "mset (Print h') = mset h'" by blast
    with ms show ?thesis by (simp add: Print_Pop[OF pop])
  qed
qed

lemma Print_sorted: "heap_ordered h \<Longrightarrow> sorted (map path (Print h))"
proof (induction h rule: length_induct)
  case (1 h)
  show ?case
  proof (cases "h = []")
    case True
    then show ?thesis by simp
  next
    case False
    from heap_Pop_Some[OF False] "1.prems" obtain h' where
      pop: "heap_Pop h = Some (h ! 0, h')" and
      ms: "add_mset (h ! 0) (mset h') = mset h" and
      len: "length h' = length h - 1" and
      ord: "heap_ordered h'" by blast
    have shorter: "length h' < length h" using len False by (cases h) auto
    from "1.IH" shorter ord have IH: "sorted (map path (Print h'))" by blast
    have "path (h ! 0) \<le> path x" if "x \<in> set (Print h')" for x
    proof -
      have "set (Print h') = set h'" by (rule mset_eq_setD) simp
      with that have "x \<in># mset h'" by simp
      then have "x \<in># mset h" using ms by (metis insert_iff set_mset_add_mset_insert)
      then have "x \<in> set h" by simp
      then obtain k where "k < length h" "h ! k = x" by (auto simp: in_set_conv_nth)
      with heap_ordered_root[OF "1.prems"] show ?thesis by auto
    qed
    with IH show ?thesis by (simp add: Print_Pop[OF pop])
  qed
qed

lemma heap_ordered_Nil [simp]: "heap_ordered []"
  by (simp add: heap_ordered_def ordered_below_def)

lemma foldl_heap_Push:
  "heap_ordered h \<Longrightarrow> heap_ordered (foldl heap_Push h fs) \<and>
     mset (foldl heap_Push h fs) = mset h + mset fs"
  by (induction fs arbitrary: h) (simp_all add: heap_Push_ordered)

lemma ascending_unique:
  assumes "mset xs = mset ys"
    and "sorted_wrt (<) (map path xs)" and "sorted_wrt (<) (map path ys)"
  shows "xs = ys"
proof -
  from assms(1) have sets: "set xs = set ys" by (rule mset_eq_setD)
  from assms(2,3) have s: "sorted (map path xs)" "distinct (map path xs)"
    "sorted (map path ys)" "distinct (map path ys)"
    by (simp_all add: strict_sorted_iff)
  have "set (map path xs) = set (map path ys)" using sets by simp
  with s have m: "map path xs = map path ys" by (intro sorted_distinct_set_unique)
  from s(2) have "inj_on path (set xs)" by (simp add: distinct_map)
  with sets have "inj_on path (set xs \<union> set ys)" by simp
  with m show ?thesis by (rule map_inj_on)
qed

lemma Print_ascending:
  assumes "distinct (map path fs)"
  shows "sorted_wrt (<) (map path (Print (foldl heap_Push [] fs)))"
proof -
  let ?out = "Print (foldl heap_Push [] fs)"
  have h: "heap_ordered (foldl heap_Push [] fs)" "mset (foldl heap_Push [] fs) = mset fs"
    using foldl_heap_Push[of "[]" fs] by simp_all
  from Print_sorted[OF h(1)] have srt: "sorted (map path ?out)" .
  from h(2) have "mset (map path ?out) = mset (map path fs)" by simp
  with assms have "distinct (map path ?out)" by (metis mset_eq_imp_distinct_iff)
  with srt show ?thesis by (simp add: strict_sorted_iff)
qed

text \<open>Results of scans, for the examples.\<close>

definition result_a :: File where
  "result_a = \<lparr>path = ''a.go'', matchRegex = Some non_ascii, ignoreRegex = None,
     matchedLines = [1 \<mapsto> alpha_beta_gamma], scanError = None\<rparr>"

definition result_b :: File where
  "result_b = \<lparr>path = ''b.go'', matchRegex = Some non_ascii, ignoreRegex = None,
     matchedLines = [3 \<mapsto> delta_epsilon_zeta], scanError = None\<rparr>"

definition result_c :: File where
  "result_c = \<lparr>path = ''c/a.go'', matchRegex = Some non_ascii, ignoreRegex = None,
     matchedLines = [2 \<mapsto> delta_epsilon_zeta], scanError = None\<rparr>"

definition result_plain :: File where
  "result_plain = \<lparr>path = ''plain.go'', matchRegex = Some non_ascii, ignoreRegex = None,
     matchedLines = Map.empty, scanError = None\<rparr>"

definition result_broken :: File where
  "result_broken = \<lparr>path = ''broken.go'', matchRegex = Some non_ascii, ignoreRegex = None,
     matchedLines = [1 \<mapsto> alpha_beta_gamma],
     scanError = Some (PathError ''read broken.go: input/output error'')\<rparr>"

lemmas heap_eval =
  heap_Push_def Push_def Len_def up.simps Less_def Swap_def Print.simps heap_Pop_def Pop_def
  down.simps Let_def

text \<open>
  C2. Push files with pairwise different paths into an empty heap with \<^verbatim>\<open>heap.Push\<close>, in any
  order, and drain it as \<^verbatim>\<open>Heap.Print\<close> does. The files that come out are exactly the
  files pushed (as a multiset: none is missing and none comes twice), their paths are strictly
  ascending, and every other order of pushing the same files gives the same output.
\<close>

theorem Heap_Print_ascending:
  assumes "distinct (map path fs)"
  shows "mset (Print (foldl heap_Push [] fs)) = mset fs \<and>
         sorted_wrt (<) (map path (Print (foldl heap_Push [] fs))) \<and>
         (\<forall>gs. mset gs = mset fs \<longrightarrow>
            Print (foldl heap_Push [] gs) = Print (foldl heap_Push [] fs))"
proof (intro conjI allI impI)
  show "mset (Print (foldl heap_Push [] fs)) = mset fs"
    using foldl_heap_Push[of "[]" fs] by simp
  show "sorted_wrt (<) (map path (Print (foldl heap_Push [] fs)))"
    using assms by (rule Print_ascending)
next
  fix gs assume gs: "mset gs = mset fs"
  then have "mset (map path gs) = mset (map path fs)" by (metis mset_map)
  with assms have d: "distinct (map path gs)" by (metis mset_eq_imp_distinct_iff)
  have "mset (Print (foldl heap_Push [] gs)) = mset (Print (foldl heap_Push [] fs))"
    using foldl_heap_Push[of "[]" fs] foldl_heap_Push[of "[]" gs] gs by simp
  then show "Print (foldl heap_Push [] gs) = Print (foldl heap_Push [] fs)"
    using Print_ascending[OF d] Print_ascending[OF assms]
    by (rule ascending_unique)
qed

theorem Heap_Print_ascending_witness:
  "distinct (map path [result_c, result_a, result_b]) \<and>
   mset [result_b, result_c, result_a] = mset [result_c, result_a, result_b] \<and>
   Print (foldl heap_Push [] [result_c, result_a, result_b]) = [result_a, result_b, result_c] \<and>
   Print (foldl heap_Push [] [result_b, result_c, result_a]) = [result_a, result_b, result_c] \<and>
   sorted_wrt (<) [''a.go'', ''b.go'', ''c/a.go'']"
proof -
  have d: "distinct (map path [result_c, result_a, result_b])"
    by (simp add: result_a_def result_b_def result_c_def)
  have m: "mset [result_b, result_c, result_a] = mset [result_c, result_a, result_b]"
    by simp
  have p: "Print (foldl heap_Push [] [result_c, result_a, result_b]) =
      [result_a, result_b, result_c]"
    by (simp add: result_a_def result_b_def result_c_def heap_eval)
  from Heap_Print_ascending [OF d]
  have all: "\<forall>gs. mset gs = mset [result_c, result_a, result_b] \<longrightarrow>
      Print (foldl heap_Push [] gs) = Print (foldl heap_Push [] [result_c, result_a, result_b])"
    and s: "sorted_wrt (<) (map path (Print (foldl heap_Push [] [result_c, result_a, result_b])))"
    by blast+
  from all m have "Print (foldl heap_Push [] [result_b, result_c, result_a]) =
      Print (foldl heap_Push [] [result_c, result_a, result_b])" by blast
  with p have q: "Print (foldl heap_Push [] [result_b, result_c, result_a]) =
      [result_a, result_b, result_c]" by simp
  from s p have "sorted_wrt (<) [''a.go'', ''b.go'', ''c/a.go'']"
    by (simp add: result_a_def result_b_def result_c_def)
  with d m p q show ?thesis by blast
qed

section \<open>Properties of the aggregation loop\<close>

lemma foldl_aggregate:
  "fst (foldl aggregate (cnt, hp) fs) = cnt + length (filter (\<lambda>f. Error f \<noteq> None) fs) \<and>
   mset (snd (foldl aggregate (cnt, hp) fs)) =
     mset hp + mset (filter (\<lambda>f. Error f = None \<and> MatchedLines f \<noteq> Map.empty) fs)"
  by (induction fs arbitrary: cnt hp) (auto simp: aggregate_def FoundLines_def)

text \<open>
  C6. One result: if it carries a failure, the error count goes up by one and the heap is
  left as it is; if it carries none, the error count is left as it is and the result is
  pushed on the heap exactly when its matched lines are not empty. All results: the error
  count is the number of results with a failure, and the heap holds, and \<^verbatim>\<open>Print\<close> reports,
  exactly the results without a failure whose matched lines are not empty; the number of
  files in the heap is their number.
\<close>

theorem aggregate_skips_failures_and_empty_results:
  "(Error f \<noteq> None \<longrightarrow> aggregate (cnt, hp) f = (cnt + 1, hp)) \<and>
   (Error f = None \<longrightarrow>
      aggregate (cnt, hp) f = (cnt, if FoundLines f \<noteq> Map.empty then heap_Push hp f else hp)) \<and>
   fst (main_loop arrivals) = length (filter (\<lambda>f. Error f \<noteq> None) (concat arrivals)) \<and>
   mset (snd (main_loop arrivals)) =
     mset (filter (\<lambda>f. Error f = None \<and> MatchedLines f \<noteq> Map.empty) (concat arrivals)) \<and>
   mset (Print (snd (main_loop arrivals))) =
     mset (filter (\<lambda>f. Error f = None \<and> MatchedLines f \<noteq> Map.empty) (concat arrivals)) \<and>
   Len (snd (main_loop arrivals)) =
     length (filter (\<lambda>f. Error f = None \<and> MatchedLines f \<noteq> Map.empty) (concat arrivals))"
proof -
  have ms: "mset (snd (main_loop arrivals)) =
     mset (filter (\<lambda>f. Error f = None \<and> MatchedLines f \<noteq> Map.empty) (concat arrivals))"
    using foldl_aggregate[of 0 "[]" "concat arrivals"] by (simp add: main_loop_def)
  then have "length (snd (main_loop arrivals)) =
     length (filter (\<lambda>f. Error f = None \<and> MatchedLines f \<noteq> Map.empty) (concat arrivals))"
    by (rule mset_eq_length)
  then have "Len (snd (main_loop arrivals)) =
     length (filter (\<lambda>f. Error f = None \<and> MatchedLines f \<noteq> Map.empty) (concat arrivals))"
    by (simp add: Len_def)
  moreover have "fst (main_loop arrivals) =
      length (filter (\<lambda>f. Error f \<noteq> None) (concat arrivals))"
    using foldl_aggregate[of 0 "[]" "concat arrivals"] by (simp add: main_loop_def)
  ultimately show ?thesis using ms by (auto simp: aggregate_def)
qed

theorem aggregate_skips_failures_and_empty_results_witness:
  "Error result_broken \<noteq> None \<and> aggregate (0, [result_c]) result_broken = (1, [result_c]) \<and>
   Error result_a = None \<and> FoundLines result_a \<noteq> Map.empty \<and>
   aggregate (0, [result_c]) result_a = (0, [result_a, result_c]) \<and>
   Error result_plain = None \<and> FoundLines result_plain = Map.empty \<and>
   aggregate (0, [result_c]) result_plain = (0, [result_c]) \<and>
   main_loop [[result_broken, result_c], [result_plain, result_a]] = (1, [result_a, result_c])"
proof -
  have e: "Error result_broken \<noteq> None" "Error result_a = None" "Error result_plain = None"
    "FoundLines result_a \<noteq> Map.empty" "FoundLines result_plain = Map.empty"
    by (simp_all add: Error_def FoundLines_def MatchedLines_def result_broken_def result_a_def
        result_plain_def)
  have p: "heap_Push [result_c] result_a = [result_a, result_c]"
    by (simp add: result_a_def result_c_def heap_eval)
  have l: "main_loop [[result_broken, result_c], [result_plain, result_a]] =
      (1, [result_a, result_c])"
    by (simp add: main_loop_def aggregate_def Error_def FoundLines_def MatchedLines_def
        result_broken_def result_a_def result_c_def result_plain_def heap_eval)
  from aggregate_skips_failures_and_empty_results [of result_broken 0 "[result_c]"]
    aggregate_skips_failures_and_empty_results [of result_a 0 "[result_c]"]
    aggregate_skips_failures_and_empty_results [of result_plain 0 "[result_c]"] e p l
  show ?thesis by simp
qed

section \<open>Properties of \<^verbatim>\<open>ScanFiles\<close>\<close>

text \<open>
  What holds in every state that a schedule reaches: each goroutine is at a place of its
  own path and holds the scanned record of that path; the counter of the \<^verbatim>\<open>WaitGroup\<close> is the
  number of goroutines that have not returned; the values received are those of the
  goroutines past their send; the channel is closed only with the counter at zero; nothing
  has panicked.
\<close>

fun task_ok :: "filesystem \<Rightarrow> Regexp option \<Rightarrow> Regexp option \<Rightarrow> string \<Rightarrow> task \<Rightarrow> bool" where
  "task_ok fs m ig p (Ready q) = (q = p)"
| "task_ok fs m ig p (Sending f) = (f = scanned fs m ig p)"
| "task_ok fs m ig p (Sent f) = (f = scanned fs m ig p)"
| "task_ok fs m ig p (Finished f) = (f = scanned fs m ig p)"

fun delivered :: "task \<Rightarrow> File list" where
  "delivered (Sent f) = [f]"
| "delivered (Finished f) = [f]"
| "delivered _ = []"

fun pending :: "task \<Rightarrow> nat" where
  "pending (Finished f) = 0"
| "pending _ = 1"

fun steps_left :: "task \<Rightarrow> nat" where
  "steps_left (Ready p) = 3"
| "steps_left (Sending f) = 2"
| "steps_left (Sent f) = 1"
| "steps_left (Finished f) = 0"

fun outstanding :: "task list \<Rightarrow> nat" where
  "outstanding [] = 0"
| "outstanding (t # ts) = pending t + outstanding ts"

fun steps_total :: "task list \<Rightarrow> nat" where
  "steps_total [] = 0"
| "steps_total (t # ts) = steps_left t + steps_total ts"

fun deliveries :: "task list \<Rightarrow> File list" where
  "deliveries [] = []"
| "deliveries (t # ts) = delivered t @ deliveries ts"

definition remaining :: "system \<Rightarrow> nat" where
  "remaining s = steps_total (tasks s) + (if closed s then 0 else 1)"

definition consistent :: "filesystem \<Rightarrow> Regexp option \<Rightarrow> Regexp option \<Rightarrow> string list \<Rightarrow> system \<Rightarrow> bool" where
  "consistent fs m ig ps s =
     (list_all2 (task_ok fs m ig) ps (tasks s) \<and>
      wg s = int (outstanding (tasks s)) \<and>
      mset (received s) = mset (deliveries (tasks s)) \<and>
      (closed s \<longrightarrow> wg s = 0) \<and> \<not> panicked s)"

lemma outstanding_append [simp]: "outstanding (xs @ ys) = outstanding xs + outstanding ys"
  by (induction xs) auto

lemma steps_total_append [simp]: "steps_total (xs @ ys) = steps_total xs + steps_total ys"
  by (induction xs) auto

lemma deliveries_append [simp]: "deliveries (xs @ ys) = deliveries xs @ deliveries ys"
  by (induction xs) auto

lemma update_split:
  "i < length ts \<Longrightarrow> ts = take i ts @ ts ! i # drop (Suc i) ts \<and>
     ts[i := t] = take i ts @ t # drop (Suc i) ts"
  by (simp add: id_take_nth_drop upd_conv_take_nth_drop)

lemma consistent_init: "consistent fs m ig ps (ScanFiles ps)"
proof -
  have "list_all2 (task_ok fs m ig) ps (map Ready ps)"
    by (simp add: list_all2_conv_all_nth)
  moreover have "outstanding (map Ready ps) = length ps"
    by (induction ps) auto
  moreover have "deliveries (map Ready ps) = []"
    by (induction ps) auto
  ultimately show ?thesis by (simp add: consistent_def ScanFiles_def)
qed

lemma outstanding_zero:
  assumes "outstanding ts = 0" "i < length ts"
  shows "\<exists>f. ts ! i = Finished f"
proof -
  from update_split[OF assms(2), of "ts ! i"] obtain pre post where "ts = pre @ ts ! i # post"
    by metis
  then have "outstanding ts = outstanding pre + pending (ts ! i) + outstanding post"
    by (metis outstanding_append outstanding.simps(2) add.assoc)
  with assms(1) have "pending (ts ! i) = 0" by simp
  then show ?thesis by (cases "ts ! i") auto
qed

lemma consistent_step:
  assumes "consistent fs m ig ps s" and "step fs m ig e s = Some s'"
  shows "consistent fs m ig ps s' \<and> Suc (remaining s') = remaining s"
proof (cases e)
  case (Scanned i)
  with assms(2) obtain p where i: "i < length (tasks s)" and t: "tasks s ! i = Ready p"
    and s': "s' = s\<lparr>tasks := (tasks s)[i := Sending (scanned fs m ig p)]\<rparr>"
    by (auto split: if_splits task.splits)
  from update_split[OF i, of "Sending (scanned fs m ig p)"] t
  obtain pre post where ts: "tasks s = pre @ Ready p # post"
    and ts': "(tasks s)[i := Sending (scanned fs m ig p)] = pre @ Sending (scanned fs m ig p) # post"
    by metis
  from s' ts' have s'': "s' = s\<lparr>tasks := pre @ Sending (scanned fs m ig p) # post\<rparr>" by simp
  from assms(1) show ?thesis
    unfolding consistent_def remaining_def s''
    by (auto simp: ts list_all2_append2 list_all2_Cons2)
next
  case (Deliver i)
  with assms(2) obtain f where i: "i < length (tasks s)" and t: "tasks s ! i = Sending f"
    by (auto split: if_splits task.splits)
  have nc: "\<not> closed s"
  proof
    assume "closed s"
    with assms(1) have "outstanding (tasks s) = 0" by (simp add: consistent_def)
    from outstanding_zero[OF this i] t show False by simp
  qed
  with Deliver assms(2) i t
  have s': "s' = s\<lparr>received := received s @ [f], tasks := (tasks s)[i := Sent f]\<rparr>"
    by (auto split: if_splits)
  from update_split[OF i, of "Sent f"] t
  obtain pre post where ts: "tasks s = pre @ Sending f # post"
    and ts': "(tasks s)[i := Sent f] = pre @ Sent f # post"
    by metis
  from s' ts' have s'': "s' = s\<lparr>received := received s @ [f], tasks := pre @ Sent f # post\<rparr>"
    by simp
  from assms(1) nc show ?thesis
    unfolding consistent_def remaining_def s''
    by (auto simp: ts list_all2_append2 list_all2_Cons2)
next
  case (Done i)
  with assms(2) obtain f where i: "i < length (tasks s)" and t: "tasks s ! i = Sent f"
    and s': "s' = s\<lparr>wg := wg s - 1, tasks := (tasks s)[i := Finished f]\<rparr>"
    by (auto split: if_splits task.splits)
  from update_split[OF i, of "Finished f"] t
  obtain pre post where ts: "tasks s = pre @ Sent f # post"
    and ts': "(tasks s)[i := Finished f] = pre @ Finished f # post"
    by metis
  have nc: "\<not> closed s"
  proof
    assume "closed s"
    with assms(1) have "outstanding (tasks s) = 0" by (simp add: consistent_def)
    from outstanding_zero[OF this i] t show False by simp
  qed
  from s' ts' have s'': "s' = s\<lparr>wg := wg s - 1, tasks := pre @ Finished f # post\<rparr>"
    by simp
  from assms(1) nc show ?thesis
    unfolding consistent_def remaining_def s''
    by (auto simp: ts list_all2_append2 list_all2_Cons2)
next
  case Close_cp
  with assms show ?thesis
    by (auto simp: consistent_def remaining_def split: if_splits)
qed

lemma consistent_exec:
  "consistent fs m ig ps s \<Longrightarrow> exec fs m ig evs s = Some s' \<Longrightarrow>
     consistent fs m ig ps s' \<and> length evs + remaining s' = remaining s"
proof (induction evs arbitrary: s)
  case Nil
  then show ?case by simp
next
  case (Cons e es)
  from Cons.prems(2) obtain s1 where st: "step fs m ig e s = Some s1"
    and ex: "exec fs m ig es s1 = Some s'"
    by (auto split: option.splits)
  from consistent_step[OF Cons.prems(1) st] Cons.IH[OF _ ex] show ?case by auto
qed

lemma remaining_init: "remaining (ScanFiles ps) = 3 * length ps + 1"
proof -
  have "steps_total (map Ready ps) = 3 * length ps" by (induction ps) auto
  then show ?thesis by (simp add: remaining_def ScanFiles_def)
qed

lemma all_Finished:
  assumes "list_all2 (task_ok fs m ig) ps ts" "outstanding ts = 0"
  shows "ts = map (\<lambda>p. Finished (scanned fs m ig p)) ps"
  using assms
proof (induction ps ts rule: list_all2_induct)
  case Nil
  then show ?case by simp
next
  case (Cons p ps t ts)
  then show ?case by (cases t) auto
qed

lemma some_pending:
  "outstanding ts \<noteq> 0 \<Longrightarrow> \<exists>i < length ts. pending (ts ! i) \<noteq> 0"
proof (induction ts)
  case Nil
  then show ?case by simp
next
  case (Cons t ts)
  show ?case
  proof (cases "pending t = 0")
    case True
    with Cons obtain i where "i < length ts" "pending (ts ! i) \<noteq> 0" by auto
    then have "Suc i < length (t # ts) \<and> pending ((t # ts) ! Suc i) \<noteq> 0" by simp
    then show ?thesis by blast
  next
    case False
    then have "0 < length (t # ts) \<and> pending ((t # ts) ! 0) \<noteq> 0" by simp
    then show ?thesis by blast
  qed
qed

lemma progress:
  assumes "consistent fs m ig ps s" "\<not> closed s"
  shows "\<exists>e. step fs m ig e s \<noteq> None"
proof (cases "outstanding (tasks s) = 0")
  case True
  with assms have "step fs m ig Close_cp s \<noteq> None" by (simp add: consistent_def)
  then show ?thesis ..
next
  case False
  from some_pending[OF False] obtain i where
    i: "i < length (tasks s)" "pending (tasks s ! i) \<noteq> 0" by auto
  from assms have np: "\<not> panicked s" by (simp add: consistent_def)
  show ?thesis
  proof (cases "tasks s ! i")
    case (Ready p)
    with i np have "step fs m ig (Scanned i) s \<noteq> None" by simp
    then show ?thesis ..
  next
    case (Sending f)
    with i np assms(2) have "step fs m ig (Deliver i) s \<noteq> None" by simp
    then show ?thesis ..
  next
    case (Sent f)
    with i np have "step fs m ig (Done i) s \<noteq> None" by simp
    then show ?thesis ..
  next
    case (Finished f)
    with i show ?thesis by simp
  qed
qed

definition example_schedule :: "event list" where
  "example_schedule = [Scanned 1, Scanned 0, Deliver 1, Done 1, Deliver 0, Done 0, Close_cp]"

text \<open>
  C3. Take any schedule that runs from the state in which \<^verbatim>\<open>ScanFiles\<close> returns, and the
  state it reaches. No send has met a closed channel. If the channel is closed, every
  goroutine has returned after its send, and the values received are exactly the scanned
  records of the input paths, one for each path, so their number is the length of the
  input. If the channel is not closed, some step is enabled. No schedule is longer than
  three steps for each path and one more; so every run ends, and it ends with the channel
  closed and one result received for each path.
\<close>

theorem ScanFiles_one_result_per_path:
  assumes "exec fs m ig evs (ScanFiles filePaths) = Some s"
  shows "\<not> panicked s \<and>
         (closed s \<longrightarrow>
            tasks s = map (\<lambda>p. Finished (scanned fs m ig p)) filePaths \<and>
            mset (received s) = mset (map (scanned fs m ig) filePaths) \<and>
            length (received s) = length filePaths) \<and>
         (\<not> closed s \<longrightarrow> (\<exists>e. step fs m ig e s \<noteq> None)) \<and>
         length evs \<le> 3 * length filePaths + 1"
proof -
  from consistent_exec[OF consistent_init assms]
  have I: "consistent fs m ig filePaths s"
    and R: "length evs + remaining s = remaining (ScanFiles filePaths)" by auto
  from I have np: "\<not> panicked s" by (simp add: consistent_def)
  have cl: "tasks s = map (\<lambda>p. Finished (scanned fs m ig p)) filePaths \<and>
            mset (received s) = mset (map (scanned fs m ig) filePaths) \<and>
            length (received s) = length filePaths" if "closed s"
  proof -
    from I that have z: "outstanding (tasks s) = 0" by (simp add: consistent_def)
    from I have "list_all2 (task_ok fs m ig) filePaths (tasks s)" by (simp add: consistent_def)
    from all_Finished[OF this z]
    have ts: "tasks s = map (\<lambda>p. Finished (scanned fs m ig p)) filePaths" .
    have "deliveries (map (\<lambda>p. Finished (scanned fs m ig p)) ps) = map (scanned fs m ig) ps"
      for ps by (induction ps) auto
    with I ts have ms: "mset (received s) = mset (map (scanned fs m ig) filePaths)"
      by (simp add: consistent_def)
    then have "length (received s) = length (map (scanned fs m ig) filePaths)"
      by (rule mset_eq_length)
    with ts ms show ?thesis by simp
  qed
  from R have "length evs \<le> 3 * length filePaths + 1" by (simp add: remaining_init)
  with np cl progress[OF I] show ?thesis by blast
qed

theorem ScanFiles_one_result_per_path_witness:
  "exec example_fs (Some non_ascii) (Some slash_slash) example_schedule
     (ScanFiles [''ignore.go'', ''missing.go'']) =
   Some \<lparr>tasks = [Finished (scanned example_fs (Some non_ascii) (Some slash_slash) ''ignore.go''),
                  Finished (scanned example_fs (Some non_ascii) (Some slash_slash) ''missing.go'')],
         wg = 0, closed = True,
         received = [scanned example_fs (Some non_ascii) (Some slash_slash) ''missing.go'',
                     scanned example_fs (Some non_ascii) (Some slash_slash) ''ignore.go''],
         panicked = False\<rparr> \<and>
   mset [scanned example_fs (Some non_ascii) (Some slash_slash) ''missing.go'',
         scanned example_fs (Some non_ascii) (Some slash_slash) ''ignore.go''] =
   mset (map (scanned example_fs (Some non_ascii) (Some slash_slash)) [''ignore.go'', ''missing.go'']) \<and>
   length example_schedule \<le> 3 * length [''ignore.go'', ''missing.go''] + 1"
proof -
  have x: "exec example_fs (Some non_ascii) (Some slash_slash) example_schedule
     (ScanFiles [''ignore.go'', ''missing.go'']) =
   Some \<lparr>tasks = [Finished (scanned example_fs (Some non_ascii) (Some slash_slash) ''ignore.go''),
                  Finished (scanned example_fs (Some non_ascii) (Some slash_slash) ''missing.go'')],
         wg = 0, closed = True,
         received = [scanned example_fs (Some non_ascii) (Some slash_slash) ''missing.go'',
                     scanned example_fs (Some non_ascii) (Some slash_slash) ''ignore.go''],
         panicked = False\<rparr>"
    by (simp add: example_schedule_def ScanFiles_def)
  from ScanFiles_one_result_per_path [OF x] x show ?thesis by simp
qed

end
